theory Spec2Isabelle
  imports Complex_Main "HOL-Library.Sublist"
begin

section \<open>JavaScript numbers\<close>

text \<open>
  The simulator (\<^verbatim>\<open>src/brownian-motion-simulator.tsx\<close>) computes with JavaScript
  numbers: IEEE 754 double precision, with \<open>Infinity\<close>, \<open>-Infinity\<close> and \<open>NaN\<close>.

  A finite double is an integer of magnitude below \<open>2^53\<close> times a power of two with
  exponent from \<open>-1074\<close> to \<open>971\<close>. The result of an operation is the exact result
  rounded to the nearest double, a tie going to the even mantissa: the exact result is
  divided by the spacing of the doubles at its magnitude (\<open>2^(e-52)\<close> for a magnitude
  in \<open>[2^e, 2^(e+1))\<close>, and \<open>2^-1074\<close> below \<open>2^-1022\<close>), rounded to an integer, and
  multiplied back. A result that rounds to \<open>2^1024\<close> or beyond is an infinity; a result
  below half the least double rounds to zero.
\<close>

definition pow2 :: "int \<Rightarrow> real" where
  "pow2 e = 2 powi e"

definition representable :: "real \<Rightarrow> bool" where
  "representable x \<longleftrightarrow>
     (\<exists>m e :: int. x = of_int m * pow2 e \<and> \<bar>m\<bar> < 2 ^ 53 \<and> - 1074 \<le> e \<and> e \<le> 971)"

definition exponent :: "real \<Rightarrow> int" where
  "exponent x = max (\<lfloor>log 2 \<bar>x\<bar>\<rfloor> - 52) (- 1074)"

definition round_even :: "real \<Rightarrow> int" where
  "round_even y =
     (let f = \<lfloor>y\<rfloor>
      in if y - of_int f < 1 / 2 then f
         else if 1 / 2 < y - of_int f then f + 1
         else if even f then f else f + 1)"

definition nearest :: "real \<Rightarrow> real" where
  "nearest x = of_int (round_even (x / pow2 (exponent x))) * pow2 (exponent x)"

text \<open>
  The finite doubles as a type, ordered by their values. The two zeros of IEEE
  arithmetic are one number here (\<open>-0\<close> is \<open>0\<close>): a division by zero takes the sign of
  the dividend.
\<close>

typedef double = "{x. representable x}"
  morphisms val Dbl
proof
  have "(0::real) = of_int 0 * pow2 0 \<and> \<bar>0::int\<bar> < 2 ^ 53 \<and> (- 1074::int) \<le> 0 \<and> (0::int) \<le> 971"
    by simp
  then show "0 \<in> {x. representable x}"
    unfolding representable_def by blast
qed

instantiation double :: "{zero, linorder}"
begin

definition zero_double :: double where
  "zero_double = Dbl 0"

definition less_eq_double :: "double \<Rightarrow> double \<Rightarrow> bool" where
  "less_eq_double a b \<longleftrightarrow> val a \<le> val b"

definition less_double :: "double \<Rightarrow> double \<Rightarrow> bool" where
  "less_double a b \<longleftrightarrow> val a < val b"

instance
  by standard (auto simp: less_eq_double_def less_double_def val_inject)

end

datatype jsnum = NaN | NInf | Fin double | PInf

text \<open>
  The Number value for a real: what a numeric literal denotes, and what an operation
  returns for its exact result.
\<close>

definition num :: "real \<Rightarrow> jsnum" where
  "num x =
     (let r = nearest x
      in if pow2 1024 \<le> r then PInf
         else if r \<le> - pow2 1024 then NInf
         else Fin (Dbl r))"

text \<open>
  The operators of the language on numbers: ECMAScript's tables for the special
  values, and the rounded exact result on finite operands. Every comparison with
  \<open>NaN\<close> is false.
\<close>

instantiation jsnum :: "{plus, times, inverse, uminus, abs, ord}"
begin

fun plus_jsnum :: "jsnum \<Rightarrow> jsnum \<Rightarrow> jsnum" where
  "plus_jsnum NaN b = NaN"
| "plus_jsnum a NaN = NaN"
| "plus_jsnum (Fin a) (Fin b) = num (val a + val b)"
| "plus_jsnum PInf NInf = NaN"
| "plus_jsnum NInf PInf = NaN"
| "plus_jsnum PInf b = PInf"
| "plus_jsnum a PInf = PInf"
| "plus_jsnum NInf b = NInf"
| "plus_jsnum a NInf = NInf"

fun uminus_jsnum :: "jsnum \<Rightarrow> jsnum" where
  "uminus_jsnum NaN = NaN"
| "uminus_jsnum NInf = PInf"
| "uminus_jsnum PInf = NInf"
| "uminus_jsnum (Fin a) = num (- val a)"

fun abs_jsnum :: "jsnum \<Rightarrow> jsnum" where
  "abs_jsnum NaN = NaN"
| "abs_jsnum NInf = PInf"
| "abs_jsnum PInf = PInf"
| "abs_jsnum (Fin a) = num \<bar>val a\<bar>"

fun times_jsnum :: "jsnum \<Rightarrow> jsnum \<Rightarrow> jsnum" where
  "times_jsnum NaN b = NaN"
| "times_jsnum a NaN = NaN"
| "times_jsnum (Fin a) (Fin b) = num (val a * val b)"
| "times_jsnum (Fin a) PInf = (if val a = 0 then NaN else if 0 < val a then PInf else NInf)"
| "times_jsnum (Fin a) NInf = (if val a = 0 then NaN else if 0 < val a then NInf else PInf)"
| "times_jsnum PInf (Fin b) = (if val b = 0 then NaN else if 0 < val b then PInf else NInf)"
| "times_jsnum NInf (Fin b) = (if val b = 0 then NaN else if 0 < val b then NInf else PInf)"
| "times_jsnum PInf PInf = PInf"
| "times_jsnum NInf NInf = PInf"
| "times_jsnum PInf NInf = NInf"
| "times_jsnum NInf PInf = NInf"

fun divide_jsnum :: "jsnum \<Rightarrow> jsnum \<Rightarrow> jsnum" where
  "divide_jsnum NaN b = NaN"
| "divide_jsnum a NaN = NaN"
| "divide_jsnum (Fin a) (Fin b) =
     (if val b = 0 then (if val a = 0 then NaN else if 0 < val a then PInf else NInf)
      else num (val a / val b))"
| "divide_jsnum (Fin a) PInf = Fin 0"
| "divide_jsnum (Fin a) NInf = Fin 0"
| "divide_jsnum PInf (Fin b) = (if 0 \<le> val b then PInf else NInf)"
| "divide_jsnum NInf (Fin b) = (if 0 \<le> val b then NInf else PInf)"
| "divide_jsnum a b = NaN"

definition inverse_jsnum :: "jsnum \<Rightarrow> jsnum" where
  "inverse_jsnum a = divide (num 1) a"

fun less_jsnum :: "jsnum \<Rightarrow> jsnum \<Rightarrow> bool" where
  "less_jsnum NaN b = False"
| "less_jsnum a NaN = False"
| "less_jsnum (Fin a) (Fin b) = (val a < val b)"
| "less_jsnum a NInf = False"
| "less_jsnum NInf b = True"
| "less_jsnum PInf b = False"
| "less_jsnum a PInf = True"

fun less_eq_jsnum :: "jsnum \<Rightarrow> jsnum \<Rightarrow> bool" where
  "less_eq_jsnum NaN b = False"
| "less_eq_jsnum a NaN = False"
| "less_eq_jsnum (Fin a) (Fin b) = (val a \<le> val b)"
| "less_eq_jsnum NInf b = True"
| "less_eq_jsnum a PInf = True"
| "less_eq_jsnum a b = False"

instance ..

end

text \<open>\<open>Number.isFinite\<close>: neither an infinity nor \<open>NaN\<close>.\<close>

fun isFinite :: "jsnum \<Rightarrow> bool" where
  "isFinite (Fin a) = True"
| "isFinite a = False"

text \<open>
  The functions and the constant of \<open>Math\<close> that the simulator calls. \<open>Math.PI\<close> is
  the Number value for \<open>pi\<close>, and \<open>Math.sqrt\<close> is correctly rounded. ECMAScript leaves
  the last bits of \<open>Math.log\<close> and \<open>Math.cos\<close> on finite arguments to the engine;
  they are taken as the rounded exact results.
\<close>

definition Math_PI :: jsnum where
  "Math_PI = num pi"

fun Math_sqrt :: "jsnum \<Rightarrow> jsnum" where
  "Math_sqrt (Fin a) = (if val a < 0 then NaN else num (sqrt (val a)))"
| "Math_sqrt PInf = PInf"
| "Math_sqrt a = NaN"

fun Math_log :: "jsnum \<Rightarrow> jsnum" where
  "Math_log (Fin a) =
     (if val a < 0 then NaN else if val a = 0 then NInf else num (ln (val a)))"
| "Math_log PInf = PInf"
| "Math_log a = NaN"

fun Math_cos :: "jsnum \<Rightarrow> jsnum" where
  "Math_cos (Fin a) = num (cos (val a))"
| "Math_cos a = NaN"

definition Math_abs :: "jsnum \<Rightarrow> jsnum" where
  "Math_abs a = \<bar>a\<bar>"

text \<open>
  \<open>Math.min\<close> and \<open>Math.max\<close> take any number of arguments: \<open>NaN\<close> as soon as one
  argument is \<open>NaN\<close>, and \<open>Infinity\<close> (\<open>-Infinity\<close>) for no argument at all.
\<close>

fun min2 :: "jsnum \<Rightarrow> jsnum \<Rightarrow> jsnum" where
  "min2 NaN b = NaN"
| "min2 a NaN = NaN"
| "min2 a b = (if b < a then b else a)"

fun max2 :: "jsnum \<Rightarrow> jsnum \<Rightarrow> jsnum" where
  "max2 NaN b = NaN"
| "max2 a NaN = NaN"
| "max2 a b = (if a < b then b else a)"

definition Math_min :: "jsnum list \<Rightarrow> jsnum" where
  "Math_min args = foldl min2 PInf args"

definition Math_max :: "jsnum list \<Rightarrow> jsnum" where
  "Math_max args = foldl max2 NInf args"


section \<open>The component's state\<close>

text \<open>
  \<^verbatim>\<open>interface BrownianPoint { time: number; value: number }\<close>
\<close>

record BrownianPoint =
  time :: jsnum
  "value" :: jsnum

text \<open>
  A callback handed to \<open>requestAnimationFrame\<close> is the function \<open>animate\<close> of one
  render: what it holds of that render are the values of \<open>currentStep\<close> and
  \<open>fullPath\<close> it closes over.
\<close>

record closure =
  seenStep :: nat
  seenPath :: "BrownianPoint list"

text \<open>
  The state of \<open>BrownianMotionSimulator\<close>: its \<open>useState\<close> cells, the ref
  \<open>animationRef\<close> (\<open>0\<close> for a ref never assigned: both are falsy), and the part of the
  browser the component talks to: the animation frame callbacks waiting for the next
  frame, each under its handle, and the last handle the browser gave out. \<open>steps\<close> is
  an integer: it starts at 1000 and is only ever set to \<open>Number.parseInt(..) || 1000\<close>.
  The counters (\<open>steps\<close>, the loop index, \<open>currentStep\<close>) are integers of the model:
  below \<open>2^53\<close> every integer is a double and counting is exact.
\<close>

record simulator =
  drift :: jsnum
  diffusion :: jsnum
  steps :: int
  intervalLength :: jsnum
  isAnimating :: bool
  currentStep :: nat
  path :: "BrownianPoint list"
  fullPath :: "BrownianPoint list"
  animationRef :: nat
  frames :: "(nat \<times> closure) list"
  lastHandle :: nat

section \<open>Path generation\<close>

text \<open>
  \<open>Math.random\<close> is the ambient source of uniform numbers. A source is the sequence
  of doubles its successive calls return; the code that draws from it threads the
  number of calls made so far.

  \<^verbatim>\<open>
  const generateNormalRandom = () => {
    const u1 = Math.random()
    const u2 = Math.random()
    return Math.sqrt(-2 * Math.log(u1)) * Math.cos(2 * Math.PI * u2)
  }\<close>
\<close>

definition generateNormalRandom :: "(nat \<Rightarrow> double) \<Rightarrow> nat \<Rightarrow> jsnum \<times> nat" where
  "generateNormalRandom rnd calls =
     (let u1 = Fin (rnd calls);
          u2 = Fin (rnd (calls + 1))
      in (Math_sqrt (num (- 2) * Math_log u1) * Math_cos (num 2 * Math_PI * u2), calls + 2))"

text \<open>
  The body of the \<open>for\<close> loop of \<open>generatePath\<close>, from \<open>i\<close> to \<open>steps\<close>:
  \<^verbatim>\<open>
    for (let i = 1; i <= steps; i++) {
      const randomNormal = generateNormalRandom()
      const dX = drift * dt + diffusion * Math.sqrt(dt) * randomNormal
      currentValue += dX
      newPath.push({ time: i * dt, value: currentValue })
    }\<close>
\<close>

function generatePath_loop ::
  "simulator \<Rightarrow> (nat \<Rightarrow> double) \<Rightarrow> jsnum \<Rightarrow> int \<Rightarrow> nat \<Rightarrow> jsnum \<Rightarrow> BrownianPoint list
     \<Rightarrow> BrownianPoint list" where
  "generatePath_loop s rnd dt i calls currentValue newPath =
     (if i \<le> steps s then
        (let randomNormal = fst (generateNormalRandom rnd calls);
             calls' = snd (generateNormalRandom rnd calls);
             dX = drift s * dt + diffusion s * Math_sqrt dt * randomNormal;
             currentValue' = currentValue + dX
         in generatePath_loop s rnd dt (i + 1) calls' currentValue'
              (newPath @ [\<lparr>time = num (of_int i) * dt, value = currentValue'\<rparr>]))
      else newPath)"
  by pat_completeness auto
termination
  by (relation "measure (\<lambda>(s, rnd, dt, i, calls, currentValue, newPath). nat (steps s + 1 - i))")
    auto

declare generatePath_loop.simps [simp del]

text \<open>
  \<^verbatim>\<open>
  const generatePath = useCallback(() => {
    const dt = intervalLength / steps
    const newPath: BrownianPoint[] = [{ time: 0, value: 0 }]
    let currentValue = 0
    for (...) {...}
    return newPath
  }, [drift, diffusion, steps, intervalLength])\<close>
\<close>

definition generatePath :: "simulator \<Rightarrow> (nat \<Rightarrow> double) \<Rightarrow> BrownianPoint list" where
  "generatePath s rnd =
     (let dt = intervalLength s / num (of_int (steps s))
      in generatePath_loop s rnd dt 1 0 (num 0) [\<lparr>time = num 0, value = num 0\<rparr>])"

text \<open>A source whose every call returns the same number \<open>u\<close>.\<close>

definition constantSource :: "double \<Rightarrow> nat \<Rightarrow> double" where
  "constantSource u n = u"

text \<open>
  The discretisation in the words of the specification, to compare the loop with: the
  time step, the \<open>i\<close>-th standard-normal draw of one generation (it reads the uniform
  numbers \<open>2(i-1)\<close> and \<open>2(i-1)+1\<close> of the source), the value after \<open>k\<close> steps of
  the Euler-Maruyama recurrence, and the \<open>k\<close>-th sample.
\<close>

definition timeStep :: "simulator \<Rightarrow> jsnum" where
  "timeStep s = intervalLength s / num (of_int (steps s))"

definition normalDraw :: "(nat \<Rightarrow> double) \<Rightarrow> nat \<Rightarrow> jsnum" where
  "normalDraw rnd i = fst (generateNormalRandom rnd (2 * (i - 1)))"

fun walk :: "simulator \<Rightarrow> (nat \<Rightarrow> double) \<Rightarrow> jsnum \<Rightarrow> nat \<Rightarrow> jsnum" where
  "walk s rnd dt 0 = num 0"
| "walk s rnd dt (Suc k) =
     walk s rnd dt k
       + (drift s * dt + diffusion s * Math_sqrt dt * fst (generateNormalRandom rnd (2 * k)))"

definition sample :: "simulator \<Rightarrow> (nat \<Rightarrow> double) \<Rightarrow> jsnum \<Rightarrow> nat \<Rightarrow> BrownianPoint" where
  "sample s rnd dt k =
     \<lparr>time = (if k = 0 then num 0 else num (real k) * dt), value = walk s rnd dt k\<rparr>"

section \<open>Playback\<close>

text \<open>
  The browser's side of an animation frame request: \<open>requestAnimationFrame\<close> files the
  callback under a fresh handle (never \<open>0\<close>) and returns the handle;
  \<open>cancelAnimationFrame\<close> removes the callback filed under a handle, if it is still
  waiting.
\<close>

definition requestAnimationFrame :: "closure \<Rightarrow> simulator \<Rightarrow> nat \<times> simulator" where
  "requestAnimationFrame callback s =
     (let handle = lastHandle s + 1
      in (handle, s\<lparr>frames := frames s @ [(handle, callback)], lastHandle := handle\<rparr>))"

definition cancelAnimationFrame :: "nat \<Rightarrow> simulator \<Rightarrow> simulator" where
  "cancelAnimationFrame handle s = s\<lparr>frames := filter (\<lambda>(h, c). h \<noteq> handle) (frames s)\<rparr>"

text \<open>
  \<^verbatim>\<open>
  const resetSimulation = () => {
    setIsAnimating(false)
    setCurrentStep(0)
    setPath([])
    if (animationRef.current) {
      cancelAnimationFrame(animationRef.current)
    }
    const newFullPath = generatePath()
    setFullPath(newFullPath)
  }\<close>
  The argument \<open>rnd\<close> is what \<open>Math.random\<close> returns during this call.
\<close>

definition resetSimulation :: "(nat \<Rightarrow> double) \<Rightarrow> simulator \<Rightarrow> simulator" where
  "resetSimulation rnd s =
     (let s1 = s\<lparr>isAnimating := False\<rparr>;
          s2 = s1\<lparr>currentStep := 0\<rparr>;
          s3 = s2\<lparr>path := []\<rparr>;
          s4 = (if animationRef s3 \<noteq> 0 then cancelAnimationFrame (animationRef s3) s3 else s3);
          newFullPath = generatePath s rnd
      in s4\<lparr>fullPath := newFullPath\<rparr>)"

text \<open>
  \<^verbatim>\<open>
  const toggleAnimation = () => {
    if (isAnimating) {
      setIsAnimating(false)
      if (animationRef.current) {
        cancelAnimationFrame(animationRef.current)
      }
    } else {
      setIsAnimating(true)
    }
  }\<close>
\<close>

definition toggleAnimation :: "simulator \<Rightarrow> simulator" where
  "toggleAnimation s =
     (if isAnimating s then
        (let s1 = s\<lparr>isAnimating := False\<rparr>
         in if animationRef s1 \<noteq> 0 then cancelAnimationFrame (animationRef s1) s1 else s1)
      else s\<lparr>isAnimating := True\<rparr>)"

text \<open>
  The callback of the animation loop. The state updater reads the state's
  \<open>currentStep\<close> (\<open>prev\<close>); the slice and the test that follows read the \<open>fullPath\<close>
  and the \<open>currentStep\<close> of the render that made the callback.
  \<^verbatim>\<open>
      const animate = () => {
        setCurrentStep((prev) => {
          const next = prev + 1
          setPath(fullPath.slice(0, next + 1))
          return next
        })
        if (currentStep < fullPath.length - 2) {
          animationRef.current = requestAnimationFrame(animate)
        } else {
          setIsAnimating(false)
        }
      }\<close>
\<close>

definition animate :: "closure \<Rightarrow> simulator \<Rightarrow> simulator" where
  "animate c s =
     (let next = currentStep s + 1;
          s1 = s\<lparr>path := take (next + 1) (seenPath c), currentStep := next\<rparr>
      in if int (seenStep c) < int (length (seenPath c)) - 2
         then (let (handle, s2) = requestAnimationFrame c s1 in s2\<lparr>animationRef := handle\<rparr>)
         else s1\<lparr>isAnimating := False\<rparr>)"

text \<open>
  The effect of the animation loop, with dependencies \<open>[isAnimating, currentStep, fullPath]\<close>:
  its cleanup and its body.
  \<^verbatim>\<open>
  useEffect(() => {
    if (isAnimating && currentStep < fullPath.length - 1) {
      const animate = ...
      animationRef.current = requestAnimationFrame(animate)
    }
    return () => {
      if (animationRef.current) {
        cancelAnimationFrame(animationRef.current)
      }
    }
  }, [isAnimating, currentStep, fullPath])\<close>
\<close>

definition animationCleanup :: "simulator \<Rightarrow> simulator" where
  "animationCleanup s =
     (if animationRef s \<noteq> 0 then cancelAnimationFrame (animationRef s) s else s)"

definition animationEffect :: "simulator \<Rightarrow> simulator" where
  "animationEffect s =
     (if isAnimating s \<and> int (currentStep s) < int (length (fullPath s)) - 1
      then (let (handle, s1) =
                  requestAnimationFrame \<lparr>seenStep = currentStep s, seenPath = fullPath s\<rparr> s
            in s1\<lparr>animationRef := handle\<rparr>)
      else s)"

text \<open>
  Scheduling is cooperative and single-threaded. The model takes each browser event (a
  click, a change of an input, an animation frame) as one step: the handler runs, React
  renders the new state and flushes the effects whose dependencies changed, and only
  then the next event is delivered. Every handler below changes \<open>isAnimating\<close>,
  \<open>currentStep\<close> or \<open>fullPath\<close> (a fresh array), so the render that follows runs the
  cleanup of the animation effect and then its body.
\<close>

definition render :: "simulator \<Rightarrow> simulator" where
  "render s = animationEffect (animationCleanup s)"

definition clickToggle :: "simulator \<Rightarrow> simulator" where
  "clickToggle s = render (toggleAnimation s)"

definition clickReset :: "(nat \<Rightarrow> double) \<Rightarrow> simulator \<Rightarrow> simulator" where
  "clickReset rnd s = render (resetSimulation rnd s)"

text \<open>
  An animation frame: the browser takes the callbacks that wait, empties its list and
  runs them in order. A frame with nothing waiting changes nothing.
\<close>

definition animationFrame :: "simulator \<Rightarrow> simulator" where
  "animationFrame s =
     (case frames s of
        [] \<Rightarrow> s
      | _ \<Rightarrow> render (foldl (\<lambda>s' (h, c). animate c s') (s\<lparr>frames := []\<rparr>) (frames s)))"

text \<open>
  The parameter inputs are disabled while \<open>isAnimating\<close>. A change of a parameter
  gives \<open>generatePath\<close> a new identity, and the effect
  \<^verbatim>\<open>useEffect(() => { resetSimulation() }, [generatePath])\<close> resets the simulation;
  setting a parameter to the value it has changes nothing. \<open>a || b\<close> on numbers is
  \<open>b\<close> when \<open>a\<close> is \<open>NaN\<close> or zero.
  \<^verbatim>\<open>
  onChange={(e) => setDrift(Number.parseFloat(e.target.value) || 0)}
  onChange={(e) => setDiffusion(Number.parseFloat(e.target.value) || 0)}
  onChange={(e) => setSteps(Number.parseInt(e.target.value) || 1000)}
  onChange={(e) => setIntervalLength(Number.parseFloat(e.target.value) || 1)}\<close>
  The argument is the parsed number (\<open>None\<close> for the \<open>NaN\<close> of \<open>parseInt\<close>).
\<close>

definition orElse :: "jsnum \<Rightarrow> jsnum \<Rightarrow> jsnum" where
  "orElse a b = (if a = NaN \<or> a = Fin 0 then b else a)"

definition changeDrift :: "jsnum \<Rightarrow> (nat \<Rightarrow> double) \<Rightarrow> simulator \<Rightarrow> simulator" where
  "changeDrift parsed rnd s =
     (let v = orElse parsed (num 0)
      in if isAnimating s \<or> v = drift s then s
         else render (resetSimulation rnd (s\<lparr>drift := v\<rparr>)))"

definition changeDiffusion :: "jsnum \<Rightarrow> (nat \<Rightarrow> double) \<Rightarrow> simulator \<Rightarrow> simulator" where
  "changeDiffusion parsed rnd s =
     (let v = orElse parsed (num 0)
      in if isAnimating s \<or> v = diffusion s then s
         else render (resetSimulation rnd (s\<lparr>diffusion := v\<rparr>)))"

definition changeSteps :: "int option \<Rightarrow> (nat \<Rightarrow> double) \<Rightarrow> simulator \<Rightarrow> simulator" where
  "changeSteps parsed rnd s =
     (let v = (case parsed of None \<Rightarrow> 1000 | Some n \<Rightarrow> if n = 0 then 1000 else n)
      in if isAnimating s \<or> v = steps s then s
         else render (resetSimulation rnd (s\<lparr>steps := v\<rparr>)))"

definition changeIntervalLength :: "jsnum \<Rightarrow> (nat \<Rightarrow> double) \<Rightarrow> simulator \<Rightarrow> simulator" where
  "changeIntervalLength parsed rnd s =
     (let v = orElse parsed (num 1)
      in if isAnimating s \<or> v = intervalLength s then s
         else render (resetSimulation rnd (s\<lparr>intervalLength := v\<rparr>)))"

text \<open>
  The first render has the initial values of the \<open>useState\<close> cells (those of the
  later copy of the component in the source file; the earlier copy differs in the
  defaults of \<open>drift\<close> and \<open>diffusion\<close> only). Its effects run in order: the animation
  effect, then the initialisation, which resets the simulation.
\<close>

definition initialState :: simulator where
  "initialState =
     \<lparr>drift = num 0, diffusion = num 1, steps = 1000, intervalLength = num 10,
      isAnimating = False, currentStep = 0, path = [], fullPath = [],
      animationRef = 0, frames = [], lastHandle = 0\<rparr>"

definition mount :: "(nat \<Rightarrow> double) \<Rightarrow> simulator" where
  "mount rnd = render (resetSimulation rnd (animationEffect initialState))"

inductive reachable :: "simulator \<Rightarrow> bool" where
  mounted: "reachable (mount rnd)"
| toggled: "reachable s \<Longrightarrow> reachable (clickToggle s)"
| reset: "reachable s \<Longrightarrow> reachable (clickReset rnd s)"
| frame: "reachable s \<Longrightarrow> reachable (animationFrame s)"
| drift_changed: "reachable s \<Longrightarrow> reachable (changeDrift parsed rnd s)"
| diffusion_changed: "reachable s \<Longrightarrow> reachable (changeDiffusion parsed rnd s)"
| steps_changed: "reachable s \<Longrightarrow> reachable (changeSteps parsedInt rnd s)"
| interval_changed: "reachable s \<Longrightarrow> reachable (changeIntervalLength parsed rnd s)"

text \<open>
  The specification counts the revealed samples: its \<open>revealedCount\<close> is \<open>1\<close> after a
  reset and grows by one with each tick, which is \<open>currentStep + 1\<close> of the component
  (the progress line shows \<open>currentStep\<close> of \<open>fullPath.length - 1\<close> steps).
\<close>

definition revealedCount :: "simulator \<Rightarrow> nat" where
  "revealedCount s = currentStep s + 1"

text \<open>
  What holds between two events: a callback waits exactly while the animation runs and
  samples remain, it is the one \<open>animationRef\<close> names, and it was made by the current
  render; the revealed path is empty (after a reset) or the first \<open>currentStep + 1\<close>
  samples of the full path, which is never empty.
\<close>

definition settled :: "simulator \<Rightarrow> bool" where
  "settled s \<longleftrightarrow>
     frames s =
       (if isAnimating s \<and> currentStep s + 1 < length (fullPath s)
        then [(animationRef s, \<lparr>seenStep = currentStep s, seenPath = fullPath s\<rparr>)] else [])
     \<and> (frames s = [] \<or> animationRef s \<noteq> 0)
     \<and> currentStep s + 1 \<le> length (fullPath s)
     \<and> (path s = [] \<and> currentStep s = 0 \<or> path s = take (currentStep s + 1) (fullPath s))"

text \<open>
  What holds after a handler, before the render that follows it: at most one callback
  waits, and it is the one \<open>animationRef\<close> names.
\<close>

definition handled :: "simulator \<Rightarrow> bool" where
  "handled s \<longleftrightarrow>
     (frames s = [] \<or> (\<exists>c. frames s = [(animationRef s, c)] \<and> animationRef s \<noteq> 0))
     \<and> currentStep s + 1 \<le> length (fullPath s)
     \<and> (path s = [] \<and> currentStep s = 0 \<or> path s = take (currentStep s + 1) (fullPath s))"

section \<open>The value axis and the current sample\<close>

text \<open>
  The bounds of the draw effect, computed from the full path:
  \<^verbatim>\<open>
    const allValues = fullPath.map((p) => p.value)
    const minValue = Math.min(...allValues, 0)
    const maxValue = Math.max(...allValues, 0)
    const maxAbsValue = Math.max(Math.abs(minValue), Math.abs(maxValue))
    const range = Math.max(maxAbsValue * 1.2, 0.5)
    const yMin = -range
    const yMax = range\<close>
\<close>

definition range_y :: "BrownianPoint list \<Rightarrow> jsnum" where
  "range_y fp =
     (let allValues = map value fp;
          minValue = Math_min (allValues @ [num 0]);
          maxValue = Math_max (allValues @ [num 0]);
          maxAbsValue = Math_max [Math_abs minValue, Math_abs maxValue]
      in Math_max [maxAbsValue * num 1.2, num 0.5])"

definition yMin :: "BrownianPoint list \<Rightarrow> jsnum" where
  "yMin fp = - range_y fp"

definition yMax :: "BrownianPoint list \<Rightarrow> jsnum" where
  "yMax fp = range_y fp"

text \<open>
  The range policy in the words of the specification, on the values of a path and in
  the arithmetic of the program: \<open>max(1.2 * max(|min value|, |max value|), 0.5)\<close>.
\<close>

definition rangePolicy :: "double list \<Rightarrow> jsnum" where
  "rangePolicy vs =
     Math_max [num 1.2 * Math_max [Math_abs (Fin (Min (set vs))), Math_abs (Fin (Max (set vs)))],
               num 0.5]"

text \<open>
  \<^verbatim>\<open>
  const currentValue = path.length > 0 ? path[path.length - 1].value : 0
  const currentTime = path.length > 0 ? path[path.length - 1].time : 0\<close>
\<close>

definition currentValue :: "simulator \<Rightarrow> jsnum" where
  "currentValue s =
     (if length (path s) > 0 then value (path s ! (length (path s) - 1)) else num 0)"

definition currentTime :: "simulator \<Rightarrow> jsnum" where
  "currentTime s =
     (if length (path s) > 0 then time (path s ! (length (path s) - 1)) else num 0)"

section \<open>Facts about doubles\<close>

lemma round_even_of_int [simp]: "round_even (of_int i) = i"
  by (simp add: round_even_def)

lemma round_even_error: "\<bar>of_int (round_even y) - y\<bar> \<le> 1 / 2"
  unfolding round_even_def Let_def
  by (auto split: if_splits) (linarith+)?

lemma round_even_tie: "\<bar>of_int (round_even y) - y\<bar> = 1 / 2 \<Longrightarrow> even (round_even y)"
  unfolding round_even_def Let_def
  by (auto split: if_splits) (linarith+)?

lemma round_even_mono:
  assumes "x \<le> y"
  shows "round_even x \<le> round_even y"
proof (rule ccontr)
  assume "\<not> round_even x \<le> round_even y"
  then have gt: "real_of_int (round_even y) + 1 \<le> of_int (round_even x)"
    by linarith
  have "\<bar>of_int (round_even x) - x\<bar> \<le> 1 / 2" and "\<bar>of_int (round_even y) - y\<bar> \<le> 1 / 2"
    by (rule round_even_error)+
  with gt assms have "x = y" by linarith
  with \<open>\<not> round_even x \<le> round_even y\<close> show False by simp
qed

lemma round_even_minus: "round_even (- y) = - round_even y"
proof (rule ccontr)
  assume ne: "round_even (- y) \<noteq> - round_even y"
  have a: "\<bar>of_int (round_even (- y)) - (- y)\<bar> \<le> 1 / 2"
    and b: "\<bar>of_int (round_even y) - y\<bar> \<le> 1 / 2"
    by (rule round_even_error)+
  from ne have "round_even (- y) + round_even y \<le> - 1 \<or> 1 \<le> round_even (- y) + round_even y"
    by linarith
  then have d: "real_of_int (round_even (- y)) + of_int (round_even y) \<le> - 1
      \<or> 1 \<le> real_of_int (round_even (- y)) + of_int (round_even y)"
    by (metis of_int_add of_int_le_iff of_int_1 of_int_minus)
  with a b have "\<bar>of_int (round_even (- y)) - (- y)\<bar> = 1 / 2"
    and "\<bar>of_int (round_even y) - y\<bar> = 1 / 2"
    by linarith+
  then have "even (round_even (- y))" and "even (round_even y)"
    by (simp_all add: round_even_tie)
  then have "even (round_even (- y) + round_even y)" by simp
  moreover from a b have "\<bar>real_of_int (round_even (- y)) + of_int (round_even y)\<bar> \<le> 1"
    by linarith
  then have "\<bar>round_even (- y) + round_even y\<bar> \<le> 1"
    by linarith
  ultimately show False using ne by presburger
qed

lemma round_even_nonneg: "0 \<le> y \<Longrightarrow> 0 \<le> round_even y"
  using round_even_mono [of 0 y] round_even_of_int [of 0] by simp

lemma pow2_le [simp]: "pow2 a \<le> pow2 b \<longleftrightarrow> a \<le> b"
proof
  assume le: "pow2 a \<le> pow2 b"
  show "a \<le> b"
  proof (rule ccontr)
    assume "\<not> a \<le> b"
    then have "(2::real) powi b < 2 powi a"
      by (intro power_int_strict_increasing) simp_all
    with le show False by (simp add: pow2_def)
  qed
next
  assume "a \<le> b"
  then show "pow2 a \<le> pow2 b"
    unfolding pow2_def by (intro power_int_increasing) simp_all
qed

lemma pow2_less [simp]: "pow2 a < pow2 b \<longleftrightarrow> a < b"
  using pow2_le [of b a] by (simp only: not_le [symmetric])

lemma pow2_pos [simp]: "0 < pow2 a"
  by (simp add: pow2_def)

lemma pow2_nonneg [simp]: "0 \<le> pow2 a"
  by (simp add: pow2_def)

lemma pow2_neq0 [simp]: "pow2 a \<noteq> 0"
  using pow2_pos [of a] by linarith

lemma pow2_add: "pow2 (a + b) = pow2 a * pow2 b"
  by (simp add: pow2_def power_int_add)

lemma pow2_0 [simp]: "pow2 0 = 1"
  by (simp add: pow2_def)

lemma pow2_nat: "0 \<le> e \<Longrightarrow> pow2 e = 2 ^ nat e"
  by (simp add: pow2_def power_int_def)

lemma pow2_53: "pow2 (e + 53) = 2 ^ 53 * pow2 e"
  by (simp add: pow2_add pow2_nat)

lemma pow2_52: "pow2 (e + 52) = 2 ^ 52 * pow2 e"
  by (simp add: pow2_add pow2_nat)

lemma binade:
  assumes "x \<noteq> 0"
  shows "pow2 \<lfloor>log 2 \<bar>x\<bar>\<rfloor> \<le> \<bar>x\<bar>" and "\<bar>x\<bar> < pow2 (\<lfloor>log 2 \<bar>x\<bar>\<rfloor> + 1)"
proof -
  have "2 powr real_of_int \<lfloor>log 2 \<bar>x\<bar>\<rfloor> \<le> \<bar>x\<bar>
      \<and> \<bar>x\<bar> < 2 powr (real_of_int \<lfloor>log 2 \<bar>x\<bar>\<rfloor> + 1)"
    using assms floor_log_eq_powr_iff [of "\<bar>x\<bar>" 2 "\<lfloor>log 2 \<bar>x\<bar>\<rfloor>"] by simp
  moreover have "real_of_int \<lfloor>log 2 \<bar>x\<bar>\<rfloor> + 1 = real_of_int (\<lfloor>log 2 \<bar>x\<bar>\<rfloor> + 1)"
    by simp
  ultimately show "pow2 \<lfloor>log 2 \<bar>x\<bar>\<rfloor> \<le> \<bar>x\<bar>" and "\<bar>x\<bar> < pow2 (\<lfloor>log 2 \<bar>x\<bar>\<rfloor> + 1)"
    unfolding pow2_def by (simp_all only: powr_real_of_int' [of 2, simplified])
qed

lemma floor_log_eq:
  assumes "pow2 E \<le> \<bar>x\<bar>" and "\<bar>x\<bar> < pow2 (E + 1)"
  shows "\<lfloor>log 2 \<bar>x\<bar>\<rfloor> = E"
proof -
  have x: "x \<noteq> 0"
  proof
    assume "x = 0"
    with assms(1) have "pow2 E \<le> 0" by simp
    then show False using pow2_pos [of E] by linarith
  qed
  from binade [OF x] assms have "pow2 \<lfloor>log 2 \<bar>x\<bar>\<rfloor> < pow2 (E + 1)"
    and "pow2 E < pow2 (\<lfloor>log 2 \<bar>x\<bar>\<rfloor> + 1)"
    by linarith+
  then show ?thesis by simp
qed

lemma exponent_ge: "- 1074 \<le> exponent x"
  by (simp add: exponent_def)

lemma exponent_minus [simp]: "exponent (- x) = exponent x"
  by (simp add: exponent_def)

lemma exponent_upper: "x \<noteq> 0 \<Longrightarrow> \<bar>x\<bar> < pow2 (exponent x + 53)"
proof -
  assume "x \<noteq> 0"
  then have "\<bar>x\<bar> < pow2 (\<lfloor>log 2 \<bar>x\<bar>\<rfloor> + 1)" by (rule binade)
  also have "\<dots> \<le> pow2 (exponent x + 53)"
    by (simp add: exponent_def)
  finally show ?thesis .
qed

lemma exponent_lower: "x \<noteq> 0 \<Longrightarrow> - 1074 < exponent x \<Longrightarrow> pow2 (exponent x + 52) \<le> \<bar>x\<bar>"
proof -
  assume x: "x \<noteq> 0" and "- 1074 < exponent x"
  then have "exponent x = \<lfloor>log 2 \<bar>x\<bar>\<rfloor> - 52"
    by (simp add: exponent_def max_def split: if_splits)
  then have "exponent x + 52 = \<lfloor>log 2 \<bar>x\<bar>\<rfloor>" by simp
  with binade(1) [OF x] show ?thesis by simp
qed

lemma exponent_eq:
  assumes "pow2 E \<le> \<bar>x\<bar>" and "\<bar>x\<bar> < pow2 (E + 1)"
  shows "exponent x = max (E - 52) (- 1074)"
  by (simp add: exponent_def floor_log_eq [OF assms])

lemma exponent_mono:
  assumes "0 < x" and "x \<le> y"
  shows "exponent x \<le> exponent y"
proof -
  have "log 2 \<bar>x\<bar> \<le> log 2 \<bar>y\<bar>" using assms by simp
  then have "\<lfloor>log 2 \<bar>x\<bar>\<rfloor> \<le> \<lfloor>log 2 \<bar>y\<bar>\<rfloor>" by (rule floor_mono)
  then show ?thesis by (simp add: exponent_def)
qed

lemma round_even_zero [simp]: "round_even 0 = 0"
  using round_even_of_int [of 0] by simp

lemma nearest_zero [simp]: "nearest 0 = 0"
  by (simp add: nearest_def)

lemma nearest_minus: "nearest (- x) = - nearest x"
  by (simp add: nearest_def round_even_minus)

lemma nearest_nonneg: "0 \<le> x \<Longrightarrow> 0 \<le> nearest x"
  by (simp add: nearest_def round_even_nonneg)

lemma round_even_le: "y \<le> of_int i \<Longrightarrow> round_even y \<le> i"
  using round_even_mono [of y "of_int i"] by simp

lemma round_even_ge: "of_int i \<le> y \<Longrightarrow> i \<le> round_even y"
  using round_even_mono [of "of_int i" y] by simp

lemma mantissa_upper:
  assumes "0 < x"
  shows "round_even (x / pow2 (exponent x)) \<le> 2 ^ 53"
proof -
  have "x < pow2 (exponent x + 53)"
    using exponent_upper [of x] assms by simp
  then have "x / pow2 (exponent x) \<le> of_int (2 ^ 53)"
    by (simp add: pow2_53 field_simps)
  then show ?thesis by (rule round_even_le)
qed

lemma mantissa_lower:
  assumes "0 < x" and "- 1074 < exponent x"
  shows "2 ^ 52 \<le> round_even (x / pow2 (exponent x))"
proof -
  have "pow2 (exponent x + 52) \<le> x"
    using exponent_lower [of x] assms by simp
  then have "of_int (2 ^ 52) \<le> x / pow2 (exponent x)"
    by (simp add: pow2_52 field_simps)
  then show ?thesis by (rule round_even_ge)
qed

lemma nearest_upper:
  assumes "0 < x"
  shows "nearest x \<le> pow2 (exponent x + 53)"
proof -
  have "real_of_int (round_even (x / pow2 (exponent x))) \<le> real_of_int (2 ^ 53)"
    using mantissa_upper [OF assms] by (simp only: of_int_le_iff)
  then have "real_of_int (round_even (x / pow2 (exponent x))) * pow2 (exponent x)
      \<le> real_of_int (2 ^ 53) * pow2 (exponent x)"
    by (intro mult_right_mono) simp_all
  then show ?thesis
    by (simp add: nearest_def pow2_53)
qed

lemma nearest_lower:
  assumes "0 < x" and "- 1074 < exponent x"
  shows "pow2 (exponent x + 52) \<le> nearest x"
proof -
  have "real_of_int (2 ^ 52) \<le> real_of_int (round_even (x / pow2 (exponent x)))"
    using mantissa_lower [OF assms] by (simp only: of_int_le_iff)
  then have "real_of_int (2 ^ 52) * pow2 (exponent x)
      \<le> real_of_int (round_even (x / pow2 (exponent x))) * pow2 (exponent x)"
    by (intro mult_right_mono) simp_all
  then show ?thesis
    by (simp add: nearest_def pow2_52)
qed

lemma nearest_mono_pos:
  assumes "0 < x" and "x \<le> y"
  shows "nearest x \<le> nearest y"
proof (cases "exponent x = exponent y")
  case True
  let ?q = "pow2 (exponent y)"
  have "x / ?q \<le> y / ?q"
    using assms by (simp add: divide_right_mono)
  then have "real_of_int (round_even (x / ?q)) \<le> of_int (round_even (y / ?q))"
    using round_even_mono by simp
  then show ?thesis
    by (simp add: nearest_def True mult_right_mono)
next
  case False
  with exponent_mono [OF assms] have lt: "exponent x + 1 \<le> exponent y" by simp
  with exponent_ge [of x] have "- 1074 < exponent y" by linarith
  with assms have "pow2 (exponent y + 52) \<le> nearest y"
    by (intro nearest_lower) simp_all
  moreover have "nearest x \<le> pow2 (exponent x + 53)"
    using assms by (intro nearest_upper)
  moreover have "pow2 (exponent x + 53) \<le> pow2 (exponent y + 52)"
    using lt by simp
  ultimately show ?thesis by linarith
qed

lemma nearest_mono:
  assumes "x \<le> y"
  shows "nearest x \<le> nearest y"
proof -
  consider "0 < x" | "x \<le> 0" "0 \<le> y" | "y < 0" by linarith
  then show ?thesis
  proof cases
    case 1
    then show ?thesis using assms by (rule nearest_mono_pos)
  next
    case 2
    then have "nearest x \<le> 0"
      using nearest_nonneg [of "- x"] by (simp add: nearest_minus)
    moreover from 2 have "0 \<le> nearest y" by (simp add: nearest_nonneg)
    ultimately show ?thesis by linarith
  next
    case 3
    with assms have "nearest (- y) \<le> nearest (- x)"
      by (intro nearest_mono_pos) simp_all
    then show ?thesis by (simp add: nearest_minus)
  qed
qed

lemma representable_zero [simp]: "representable 0"
  unfolding representable_def by (intro exI [of _ 0]) simp

lemma representable_minus [simp]: "representable (- x) \<longleftrightarrow> representable x"
proof -
  have "representable (- y)" if "representable y" for y
  proof -
    from that obtain m e :: int where "y = of_int m * pow2 e" "\<bar>m\<bar> < 2 ^ 53"
      "- 1074 \<le> e" "e \<le> 971"
      unfolding representable_def by blast
    then have "- y = of_int (- m) * pow2 e \<and> \<bar>- m\<bar> < 2 ^ 53 \<and> - 1074 \<le> e \<and> e \<le> 971"
      by simp
    then show ?thesis unfolding representable_def by blast
  qed
  from this [of x] this [of "- x"] show ?thesis by auto
qed

lemma representable_of_int: "\<bar>i\<bar> < 2 ^ 53 \<Longrightarrow> representable (of_int i)"
  unfolding representable_def by (intro exI [of _ i] exI [of _ 0]) simp

lemma representable_scaled:
  "\<bar>m\<bar> < 2 ^ 53 \<Longrightarrow> - 1074 \<le> e \<Longrightarrow> e \<le> 971 \<Longrightarrow> representable (of_int m * pow2 e)"
  unfolding representable_def by blast

lemma representable_pow2: "- 1074 \<le> e \<Longrightarrow> e \<le> 1023 \<Longrightarrow> representable (pow2 e)"
proof (cases "e \<le> 971")
  case True
  assume "- 1074 \<le> e"
  with True show ?thesis
    using representable_scaled [of 1 e] by simp
next
  case False
  assume "e \<le> 1023"
  from False have "pow2 e = pow2 ((e - 971) + 971)" by simp
  also have "\<dots> = pow2 (e - 971) * pow2 971" by (rule pow2_add)
  also have "pow2 (e - 971) = of_int (2 ^ nat (e - 971))"
    using False by (simp add: pow2_nat)
  finally have "pow2 e = of_int (2 ^ nat (e - 971)) * pow2 971" .
  moreover have "nat (e - 971) < 53"
    using False \<open>e \<le> 1023\<close> by simp
  then have "(2::int) ^ nat (e - 971) < 2 ^ 53"
    by (simp only: power_strict_increasing_iff one_less_numeral_iff semiring_norm)
  then have "\<bar>(2::int) ^ nat (e - 971)\<bar> < 2 ^ 53" by simp
  ultimately show ?thesis
    using representable_scaled [of "2 ^ nat (e - 971)" 971] by simp
qed

lemma real_mantissa: "\<bar>m\<bar> < (2::int) ^ 53 \<Longrightarrow> \<bar>real_of_int m\<bar> < 2 ^ 53"
proof -
  assume "\<bar>m\<bar> < (2::int) ^ 53"
  then have "real_of_int \<bar>m\<bar> < real_of_int (2 ^ 53)" by (simp only: of_int_less_iff)
  then show ?thesis by simp
qed

lemma representable_bound:
  assumes "representable x"
  shows "\<bar>x\<bar> < pow2 1024"
proof -
  from assms obtain m e :: int where x: "x = of_int m * pow2 e" and m: "\<bar>m\<bar> < 2 ^ 53"
    and e: "- 1074 \<le> e" "e \<le> 971"
    unfolding representable_def by blast
  from m have "\<bar>real_of_int m\<bar> * pow2 e < 2 ^ 53 * pow2 e"
    by (intro mult_strict_right_mono real_mantissa) simp_all
  then have "\<bar>x\<bar> < pow2 (e + 53)"
    unfolding x by (simp add: abs_mult pow2_53)
  also have "\<dots> \<le> pow2 1024"
    using e by simp
  finally show ?thesis .
qed

lemma representable_least:
  assumes "representable x" and "x \<noteq> 0"
  shows "pow2 (- 1074) \<le> \<bar>x\<bar>"
proof -
  from assms obtain m e :: int where x: "x = of_int m * pow2 e"
    and e: "- 1074 \<le> e" and "m \<noteq> 0"
    unfolding representable_def by auto
  then have "1 \<le> \<bar>m\<bar>" by simp
  then have "real_of_int 1 \<le> real_of_int \<bar>m\<bar>" by (simp only: of_int_le_iff)
  then have "1 * pow2 e \<le> \<bar>real_of_int m\<bar> * pow2 e"
    by (intro mult_right_mono) simp_all
  moreover have "pow2 (- 1074) \<le> pow2 e"
    using e by simp
  moreover have "\<bar>x\<bar> = \<bar>real_of_int m\<bar> * pow2 e"
    unfolding x by (simp add: abs_mult)
  ultimately show ?thesis by linarith
qed

text \<open>Rounding yields a double, unless it overflows.\<close>

lemma representable_nearest_pos:
  assumes "0 < x" and "nearest x < pow2 1024"
  shows "representable (nearest x)"
proof -
  define e where "e = exponent x"
  define m where "m = round_even (x / pow2 e)"
  have r: "nearest x = of_int m * pow2 e"
    by (simp add: nearest_def m_def e_def)
  have e: "- 1074 \<le> e" by (simp add: e_def exponent_ge)
  have m0: "0 \<le> m"
    using assms(1) by (simp add: m_def round_even_nonneg)
  have m53: "m \<le> 2 ^ 53"
    using mantissa_upper [OF assms(1)] by (simp add: m_def e_def)
  show ?thesis
  proof (cases "m = 2 ^ 53")
    case True
    then have eq: "nearest x = pow2 (e + 53)"
      by (simp add: r pow2_53)
    with assms(2) have "e + 53 \<le> 1023" by simp
    with e show ?thesis
      unfolding eq by (intro representable_pow2) simp_all
  next
    case False
    with m53 m0 have m: "\<bar>m\<bar> < 2 ^ 53" by simp
    have "e \<le> 971"
    proof (rule ccontr)
      assume "\<not> e \<le> 971"
      then have big: "972 \<le> e" by simp
      then have "- 1074 < exponent x" by (simp add: e_def)
      with assms(1) have "pow2 (e + 52) \<le> nearest x"
        unfolding e_def by (intro nearest_lower)
      moreover have "pow2 1024 \<le> pow2 (e + 52)"
        using big by simp
      ultimately show False using assms(2) by linarith
    qed
    with m e show ?thesis
      unfolding r by (intro representable_scaled)
  qed
qed

lemma representable_nearest:
  assumes "\<bar>nearest x\<bar> < pow2 1024"
  shows "representable (nearest x)"
proof -
  consider "0 < x" | "x = 0" | "x < 0" by linarith
  then show ?thesis
  proof cases
    case 1
    with assms show ?thesis by (intro representable_nearest_pos) simp_all
  next
    case 2
    then show ?thesis by simp
  next
    case 3
    with assms have "representable (nearest (- x))"
      by (intro representable_nearest_pos) (simp_all add: nearest_minus)
    then show ?thesis by (simp add: nearest_minus)
  qed
qed

text \<open>Rounding leaves a double as it is.\<close>

lemma nearest_representable:
  assumes "representable x"
  shows "nearest x = x"
proof (cases "x = 0")
  case True
  then show ?thesis by simp
next
  case False
  from assms obtain m e :: int where x: "x = of_int m * pow2 e" and m: "\<bar>m\<bar> < 2 ^ 53"
    and e: "- 1074 \<le> e" "e \<le> 971"
    unfolding representable_def by blast
  from m have "\<bar>real_of_int m\<bar> * pow2 e < 2 ^ 53 * pow2 e"
    by (intro mult_strict_right_mono real_mantissa) simp_all
  then have "\<bar>x\<bar> < pow2 (e + 53)"
    unfolding x by (simp add: abs_mult pow2_53)
  with binade(1) [OF False] have "pow2 \<lfloor>log 2 \<bar>x\<bar>\<rfloor> < pow2 (e + 53)"
    by linarith
  then have "\<lfloor>log 2 \<bar>x\<bar>\<rfloor> - 52 \<le> e" by simp
  with e have le: "exponent x \<le> e" by (simp add: exponent_def)
  define q where "q = pow2 (exponent x)"
  define k where "k = nat (e - exponent x)"
  have qpos: "0 < q" by (simp add: q_def)
  have "pow2 e = pow2 ((e - exponent x) + exponent x)" by simp
  also have "\<dots> = pow2 (e - exponent x) * pow2 (exponent x)" by (rule pow2_add)
  also have "pow2 (e - exponent x) = 2 ^ k"
    using le by (simp add: pow2_nat k_def)
  finally have pe: "pow2 e = 2 ^ k * q" by (simp only: q_def)
  have "real_of_int m * pow2 e / q = real_of_int m * 2 ^ k"
    using qpos by (simp add: pe)
  then have d: "x / q = of_int (m * 2 ^ k)"
    by (simp add: x)
  then have "round_even (x / q) = m * 2 ^ k"
    by (simp only: round_even_of_int)
  then have "nearest x = of_int (m * 2 ^ k) * q"
    by (simp add: nearest_def q_def)
  also have "\<dots> = x / q * q"
    by (simp only: d)
  also have "\<dots> = x" using qpos by simp
  finally show ?thesis .
qed


lemma representable_val [simp]: "representable (val d)"
  using val [of d] by simp

lemma val_Dbl [simp]: "representable x \<Longrightarrow> val (Dbl x) = x"
  by (simp add: Dbl_inverse)

lemma val_zero [simp]: "val 0 = 0"
  by (simp add: zero_double_def)

lemma val_bound: "\<bar>val d\<bar> < pow2 1024"
  by (rule representable_bound) simp

lemma val_eq_0_iff: "val d = 0 \<longleftrightarrow> d = 0"
  by (metis val_inject val_zero)

lemma num_representable: "representable x \<Longrightarrow> num x = Fin (Dbl x)"
  using representable_bound [of x]
  by (auto simp: num_def Let_def nearest_representable)

lemma num_val [simp]: "num (val d) = Fin d"
  by (simp add: num_representable val_inverse)

lemma num_0 [simp]: "num 0 = Fin 0"
  by (simp add: num_representable zero_double_def)

lemma num_cases:
  obtains (finite) d where "num x = Fin d" and "val d = nearest x"
  | (pinf) "num x = PInf" and "pow2 1024 \<le> nearest x"
  | (ninf) "num x = NInf" and "nearest x \<le> - pow2 1024"
proof (cases "pow2 1024 \<le> nearest x")
  case True
  then show ?thesis by (intro pinf) (simp_all add: num_def)
next
  case False
  show ?thesis
  proof (cases "nearest x \<le> - pow2 1024")
    case True
    with False show ?thesis by (intro ninf) (simp_all add: num_def)
  next
    case notlow: False
    with False have "\<bar>nearest x\<bar> < pow2 1024" by simp
    then have "representable (nearest x)" by (rule representable_nearest)
    with False notlow show ?thesis
      by (intro finite [of "Dbl (nearest x)"]) (simp_all add: num_def)
  qed
qed

lemma num_neq_NaN [simp]: "num x \<noteq> NaN"
  by (cases x rule: num_cases) simp_all

text \<open>A number between two doubles is rounded to a double between them.\<close>

lemma num_between:
  assumes "val a \<le> x" and "x \<le> val b"
  obtains d where "num x = Fin d" and "val a \<le> val d" and "val d \<le> val b"
proof -
  have "nearest (val a) \<le> nearest x" and "nearest x \<le> nearest (val b)"
    using assms by (simp_all add: nearest_mono)
  then have lo: "val a \<le> nearest x" and hi: "nearest x \<le> val b"
    by (simp_all add: nearest_representable)
  with val_bound [of a] val_bound [of b] have "\<bar>nearest x\<bar> < pow2 1024"
    by linarith
  then have "representable (nearest x)" and "\<not> pow2 1024 \<le> nearest x"
    and "\<not> nearest x \<le> - pow2 1024"
    by (simp_all add: representable_nearest)
  with lo hi show ?thesis
    by (intro that [of "Dbl (nearest x)"]) (simp_all add: num_def)
qed

section \<open>Facts about JavaScript numbers\<close>

lemma isFinite_iff: "isFinite a \<longleftrightarrow> (\<exists>r. a = Fin r)"
  by (cases a) simp_all



lemma representable_numeral [simp]:
  "(numeral n :: int) < 2 ^ 53 \<Longrightarrow> representable (numeral n)"
  using representable_of_int [of "numeral n"] by simp

lemma representable_one [simp]: "representable 1"
  using representable_of_int [of 1] by simp




lemma num_between_real:
  assumes "representable lo" and "representable hi" and "lo \<le> x" and "x \<le> hi"
  obtains d where "num x = Fin d" and "lo \<le> val d" and "val d \<le> hi"
proof -
  from assms have "val (Dbl lo) \<le> x" and "x \<le> val (Dbl hi)" by simp_all
  then obtain d where "num x = Fin d" "val (Dbl lo) \<le> val d" "val d \<le> val (Dbl hi)"
    by (rule num_between)
  with assms(1,2) show ?thesis by (intro that [of d]) simp_all
qed

lemma Math_sqrt_finite:
  assumes "0 \<le> val t"
  obtains r where "Math_sqrt (Fin t) = Fin r" and "0 \<le> val r"
proof -
  define hi where "hi = (if val t \<le> 1 then 1 else val t)"
  have "representable hi" by (simp add: hi_def)
  moreover have "sqrt (val t) \<le> hi"
  proof (cases "val t \<le> 1")
    case True
    then have "sqrt (val t) \<le> sqrt 1" by (simp only: real_sqrt_le_iff)
    with True show ?thesis by (simp add: hi_def)
  next
    case False
    then have "1 \<le> val t" by simp
    then have "val t \<le> (val t)\<^sup>2"
      by (simp add: power2_eq_square)
    with \<open>1 \<le> val t\<close> have "sqrt (val t) \<le> val t"
      by (intro real_le_lsqrt) simp_all
    with False show ?thesis by (simp add: hi_def)
  qed
  moreover have "0 \<le> sqrt (val t)" using assms by simp
  ultimately obtain r where "num (sqrt (val t)) = Fin r" "0 \<le> val r"
    using num_between_real [of 0 hi "sqrt (val t)"] by auto
  with assms show ?thesis by (intro that [of r]) simp_all
qed

section \<open>Rounding at a known magnitude\<close>

lemma round_even_near:
  assumes "\<bar>y - of_int m\<bar> < 1 / 2"
  shows "round_even y = m"
proof -
  have "\<bar>of_int (round_even y) - y\<bar> \<le> 1 / 2" by (rule round_even_error)
  with assms have "\<bar>real_of_int (round_even y) - of_int m\<bar> < 1" by linarith
  then have "\<bar>real_of_int (round_even y - m)\<bar> < 1" by simp
  then have "\<bar>round_even y - m\<bar> < 1" by linarith
  then show ?thesis by simp
qed

lemma round_even_half:
  assumes "y = of_int m + 1 / 2" and "even m"
  shows "round_even y = m"
proof -
  have "\<lfloor>y\<rfloor> = m" unfolding assms(1) by linarith
  then show ?thesis
    using assms by (simp add: round_even_def Let_def)
qed

lemma nearest_eq:
  assumes "pow2 E \<le> \<bar>x\<bar>" and "\<bar>x\<bar> < pow2 (E + 1)" and "- 1022 \<le> E"
    and "round_even (x / pow2 (E - 52)) = m"
  shows "nearest x = of_int m * pow2 (E - 52)"
proof -
  have "exponent x = E - 52"
    using exponent_eq [OF assms(1,2)] assms(3) by simp
  then show ?thesis
    by (simp add: nearest_def assms(4))
qed

lemma pow2_minus_nat: "pow2 (- int n) = 1 / 2 ^ n"
  by (simp add: pow2_def power_int_minus inverse_eq_divide)

lemma pow2_m52: "pow2 (- 52) = 1 / 4503599627370496"
  using pow2_minus_nat [of 52] by simp

lemma pow2_m51: "pow2 (- 51) = 1 / 2251799813685248"
  using pow2_minus_nat [of 51] by simp

lemma pow2_1: "pow2 1 = 2"
  using pow2_nat [of 1] by simp

lemma pow2_2: "pow2 2 = 4"
  using pow2_nat [of 2] by simp

lemma num_eqI:
  assumes "nearest x = r" and "representable r"
  shows "num x = Fin (Dbl r)"
  using representable_bound [OF assms(2)] assms(1)
  by (auto simp: num_def Let_def)

text \<open>The time of sample \<open>500\<close> of the default parameters: \<open>500 * (10 / 1000)\<close> is \<open>5\<close>.\<close>

lemma pow2_m59: "pow2 (- 59) = 1 / 576460752303423488"
  using pow2_minus_nat [of 59] by simp

lemma pow2_m50: "pow2 (- 50) = 1 / 1125899906842624"
  using pow2_minus_nat [of 50] by simp

lemma pow2_m7: "pow2 (- 7) = 1 / 128"
  using pow2_minus_nat [of 7] by simp

lemma pow2_m6: "pow2 (- 6) = 1 / 64"
  using pow2_minus_nat [of 6] by simp

lemma pow2_3: "pow2 3 = 8"
  using pow2_nat [of 3] by simp

lemma nearest_hundredth: "nearest (1 / 100) = 5764607523034235 * pow2 (- 59)"
proof -
  have "round_even (1 / 100 / pow2 (- 7 - 52)) = 5764607523034235"
    by (rule round_even_near) (simp add: pow2_m59)
  from nearest_eq [OF _ _ _ this] show ?thesis
    by (simp add: pow2_m7 pow2_m6)
qed

lemma nearest_500_hundredths: "nearest (500 * (5764607523034235 * pow2 (- 59))) = 5"
proof -
  have "round_even (500 * (5764607523034235 * pow2 (- 59)) / pow2 (2 - 52)) = 5629499534213120"
    by (rule round_even_near) (simp add: pow2_m59 pow2_m50)
  from nearest_eq [OF _ _ _ this] show ?thesis
    by (simp add: pow2_2 pow2_3 pow2_m59 pow2_m50)
qed

lemma representable_hundredth: "representable (5764607523034235 * pow2 (- 59))"
  using representable_scaled [of 5764607523034235 "- 59"] by simp

lemma ten_by_1000: "num 10 / num 1000 = Fin (Dbl (5764607523034235 * pow2 (- 59)))"
proof -
  have "num 10 / num 1000 = num (1 / 100)"
    by (simp add: num_representable)
  also have "\<dots> = Fin (Dbl (5764607523034235 * pow2 (- 59)))"
    using nearest_hundredth representable_hundredth by (rule num_eqI)
  finally show ?thesis .
qed

lemma time_500: "num 500 * (num 10 / num 1000) = num 5"
proof -
  note r = representable_hundredth
  have "num 500 * (num 10 / num 1000) = num (500 * (5764607523034235 * pow2 (- 59)))"
    unfolding ten_by_1000 using r by (simp add: num_representable)
  also have "\<dots> = Fin (Dbl 5)"
    using nearest_500_hundredths by (rule num_eqI) simp
  finally show ?thesis by (simp add: num_representable)
qed

text \<open>A product beyond the largest double.\<close>

lemma nearest_pow2_1025: "nearest (pow2 1025) = pow2 1025"
proof -
  have split: "pow2 1025 = pow2 52 * pow2 973"
    using pow2_add [of 52 973] by simp
  have "pow2 1025 / pow2 (1025 - 52) = of_int (2 ^ 52)"
    by (simp add: split pow2_nat)
  then have "round_even (pow2 1025 / pow2 (1025 - 52)) = 2 ^ 52"
    by (simp only: round_even_of_int)
  from nearest_eq [OF _ _ _ this] show ?thesis
    by (simp add: split pow2_nat)
qed

lemma num_pow2_1025: "num (pow2 1025) = PInf"
  by (simp add: num_def nearest_pow2_1025)

section \<open>The generated path\<close>

lemma snd_generateNormalRandom: "snd (generateNormalRandom rnd calls) = calls + 2"
  by (simp add: generateNormalRandom_def Let_def)

lemma two_pi_finite:
  obtains p where "num 2 * Math_PI = Fin p" and "0 \<le> val p" and "val p \<le> 8"
proof -
  have "0 \<le> pi" and "pi \<le> 4"
    using pi_less_4 by simp_all
  then obtain q where q: "num pi = Fin q" "0 \<le> val q" "val q \<le> 4"
    using num_between_real [of 0 4 pi] by auto
  then have "0 \<le> 2 * val q" and "2 * val q \<le> 8" by simp_all
  then obtain p where "num (2 * val q) = Fin p" "0 \<le> val p" "val p \<le> 8"
    using num_between_real [of 0 8 "2 * val q"] by auto
  with q(1) show ?thesis
    by (intro that [of p]) (simp_all add: Math_PI_def num_representable)
qed

text \<open>
  The logarithm of a double of the open unit interval lies between \<open>-1074\<close> and \<open>0\<close>:
  the least positive double is \<open>2^-1074\<close>.
\<close>

lemma ln_double_bounds:
  assumes "0 < val u" and "val u < 1"
  shows "- 1074 \<le> ln (val u)" and "ln (val u) \<le> 0"
proof -
  show "ln (val u) \<le> 0" using assms by simp
  have nz: "val u \<noteq> 0" using assms by simp
  have "pow2 (- 1074) \<le> \<bar>val u\<bar>"
    by (rule representable_least) (simp_all add: nz)
  with binade(2) [OF nz] have "pow2 (- 1074) < pow2 (\<lfloor>log 2 \<bar>val u\<bar>\<rfloor> + 1)"
    by linarith
  then have "- 1074 \<le> \<lfloor>log 2 \<bar>val u\<bar>\<rfloor>" by simp
  then have "real_of_int (- 1074) \<le> log 2 \<bar>val u\<bar>"
    by (simp only: le_floor_iff)
  then have lo: "- 1074 \<le> log 2 (val u)" using assms by simp
  have "log 2 (val u) \<le> 0" using assms by simp
  have l2: "0 < ln (2::real)" "ln (2::real) \<le> 1"
    using ln_le_minus_one [of "2::real"] by simp_all
  have "ln (val u) = log 2 (val u) * ln 2"
    by (simp add: log_def)
  moreover have "- 1074 * 1 \<le> log 2 (val u) * ln 2"
  proof -
    have "- 1074 * ln 2 \<le> log 2 (val u) * ln 2"
      using lo l2 by (intro mult_right_mono) simp_all
    moreover have "- 1074 * 1 \<le> - 1074 * ln (2::real)"
      using l2 by simp
    ultimately show ?thesis by linarith
  qed
  ultimately show "- 1074 \<le> ln (val u)" by simp
qed

text \<open>A draw from two doubles of the open unit interval is a finite number.\<close>

lemma generateNormalRandom_unit:
  assumes "0 < val (rnd calls)" and "val (rnd calls) < 1"
    and "0 \<le> val (rnd (calls + 1))" and "val (rnd (calls + 1)) \<le> 1"
  shows "isFinite (fst (generateNormalRandom rnd calls))"
proof -
  define u1 where "u1 = rnd calls"
  define u2 where "u2 = rnd (calls + 1)"
  have u1: "0 < val u1" "val u1 < 1" and u2: "0 \<le> val u2" "val u2 \<le> 1"
    using assms by (simp_all add: u1_def u2_def)
  from ln_double_bounds [OF u1] obtain l where l: "num (ln (val u1)) = Fin l"
    "- 1074 \<le> val l" "val l \<le> 0"
    using num_between_real [of "- 1074" 0 "ln (val u1)"] by auto
  then have "0 \<le> - 2 * val l" and "- 2 * val l \<le> 2148" by simp_all
  then obtain a where a: "num (- 2 * val l) = Fin a" "0 \<le> val a" "val a \<le> 2148"
    using num_between_real [of 0 2148 "- 2 * val l"] by auto
  have arg: "num (- 2) * Math_log (Fin u1) = Fin a"
    using u1 l(1) a(1) by (simp add: num_representable)
  have "sqrt (val a) \<le> sqrt (47\<^sup>2)"
    using a(3) by (simp only: real_sqrt_le_iff) simp
  then have "0 \<le> sqrt (val a)" and "sqrt (val a) \<le> 47"
    using a(2) by simp_all
  then obtain r where r: "num (sqrt (val a)) = Fin r" "0 \<le> val r" "val r \<le> 47"
    using num_between_real [of 0 47 "sqrt (val a)"] by auto
  have root: "Math_sqrt (num (- 2) * Math_log (Fin u1)) = Fin r"
    unfolding arg using a(2) r(1) by simp
  obtain p where p: "num 2 * Math_PI = Fin p" "0 \<le> val p" "val p \<le> 8"
    by (rule two_pi_finite)
  have "0 \<le> val p * val u2" using p(2) u2(1) by simp
  moreover have "val p * val u2 \<le> 8 * 1"
    using p u2 by (intro mult_mono) simp_all
  ultimately obtain g where g: "num (val p * val u2) = Fin g"
    using num_between_real [of 0 8 "val p * val u2"] by auto
  have "- 1 \<le> cos (val g)" and "cos (val g) \<le> 1" by simp_all
  then obtain c where c: "num (cos (val g)) = Fin c" "- 1 \<le> val c" "val c \<le> 1"
    using num_between_real [of "- 1" 1 "cos (val g)"] by auto
  have cosine: "Math_cos (num 2 * Math_PI * Fin u2) = Fin c"
    unfolding p(1) using g c(1) by simp
  have "\<bar>val r * val c\<bar> \<le> 47 * 1"
    unfolding abs_mult using r c by (intro mult_mono) simp_all
  then have "- 47 \<le> val r * val c" and "val r * val c \<le> 47" by simp_all
  then obtain z where "num (val r * val c) = Fin z"
    using num_between_real [of "- 47" 47 "val r * val c"] by auto
  then have "Math_sqrt (num (- 2) * Math_log (Fin u1)) * Math_cos (num 2 * Math_PI * Fin u2)
      = Fin z"
    unfolding root cosine by simp
  then show ?thesis
    by (simp only: generateNormalRandom_def Let_def fst_conv u1_def u2_def isFinite.simps)
qed

lemma generateNormalRandom_zero: "generateNormalRandom (constantSource 0) 0 = (PInf, 2)"
proof -
  obtain p where "num 2 * Math_PI = Fin p"
    by (rule two_pi_finite)
  then show ?thesis
    by (simp add: generateNormalRandom_def constantSource_def num_representable)
qed

text \<open>
  The loop, entered at step \<open>k + 1\<close> with \<open>2k\<close> uniform numbers drawn and the value
  of the walk after \<open>k\<close> steps, appends the samples \<open>k + 1\<close> to \<open>steps\<close>.
\<close>

lemma generatePath_loop_closed:
  "i = int k + 1 \<Longrightarrow> calls = 2 * k \<Longrightarrow> cv = walk s rnd dt k \<Longrightarrow>
   generatePath_loop s rnd dt i calls cv newPath
     = newPath @ map (sample s rnd dt) [Suc k ..< Suc (nat (steps s))]"
proof (induction s rnd dt i calls cv newPath arbitrary: k
    rule: generatePath_loop.induct)
  case (1 s rnd dt i calls cv newPath)
  show ?case
  proof (cases "i \<le> steps s")
    case True
    define dX where
      "dX = drift s * dt + diffusion s * Math_sqrt dt * fst (generateNormalRandom rnd calls)"
    define pt where "pt = \<lparr>time = num (of_int i) * dt, value = cv + dX\<rparr>"
    have le: "Suc k \<le> nat (steps s)"
      using True "1.prems" by simp
    have pt: "pt = sample s rnd dt (Suc k)"
      using "1.prems" by (simp add: pt_def dX_def sample_def add.commute)
    have "generatePath_loop s rnd dt i calls cv newPath
        = generatePath_loop s rnd dt (i + 1) (snd (generateNormalRandom rnd calls))
            (cv + dX) (newPath @ [pt])"
      using True unfolding pt_def dX_def
      by (subst generatePath_loop.simps) (simp add: Let_def)
    also have "\<dots> = (newPath @ [pt]) @ map (sample s rnd dt) [Suc (Suc k) ..< Suc (nat (steps s))]"
      unfolding pt_def dX_def
      by (rule "1.IH" [OF True refl refl refl refl, where k = "Suc k"])
        (use "1.prems" in \<open>simp_all add: snd_generateNormalRandom\<close>)
    also have "\<dots> = newPath @ map (sample s rnd dt) (Suc k # [Suc (Suc k) ..< Suc (nat (steps s))])"
      by (simp add: pt)
    also have "Suc k # [Suc (Suc k) ..< Suc (nat (steps s))] = [Suc k ..< Suc (nat (steps s))]"
      using le by (simp add: upt_conv_Cons)
    finally show ?thesis .
  next
    case False
    with "1.prems" have "[Suc k ..< Suc (nat (steps s))] = []" by simp
    with False show ?thesis by (subst generatePath_loop.simps) simp
  qed
qed

lemma generatePath_closed:
  "generatePath s rnd = map (sample s rnd (timeStep s)) [0 ..< Suc (nat (steps s))]"
proof -
  have "generatePath s rnd
      = [sample s rnd (timeStep s) 0] @ map (sample s rnd (timeStep s)) [Suc 0 ..< Suc (nat (steps s))]"
    unfolding generatePath_def Let_def timeStep_def
    by (subst generatePath_loop_closed [of _ 0]) (simp_all add: sample_def)
  also have "\<dots> = map (sample s rnd (timeStep s)) (0 # [Suc 0 ..< Suc (nat (steps s))])"
    by simp
  also have "0 # [Suc 0 ..< Suc (nat (steps s))] = [0 ..< Suc (nat (steps s))]"
    by (simp add: upt_conv_Cons)
  finally show ?thesis .
qed

lemma length_generatePath: "length (generatePath s rnd) = nat (steps s) + 1"
  by (simp add: generatePath_closed)

lemma generatePath_nth:
  "i \<le> nat (steps s) \<Longrightarrow> generatePath s rnd ! i = sample s rnd (timeStep s) i"
  unfolding generatePath_closed
  by (simp only: nth_map_upt length_upt diff_zero less_Suc_eq_le add_0)

lemma set_generatePath:
  "set (generatePath s rnd) = sample s rnd (timeStep s) ` {0 .. nat (steps s)}"
  by (simp only: generatePath_closed set_map set_upt atLeastLessThanSuc_atLeastAtMost)

text \<open>
  The time step of a positive step count and a finite, non-negative interval length is
  a finite, non-negative number (zero when the quotient underflows).
\<close>

lemma timeStep_finite:
  assumes "0 < steps s" and "intervalLength s = Fin k" and "0 \<le> val k"
  obtains t where "timeStep s = Fin t" and "0 \<le> val t" and "val t \<le> val k"
proof (cases "real_of_int (steps s)" rule: num_cases)
  case (finite d)
  have "nearest 1 \<le> nearest (real_of_int (steps s))"
    using assms(1) by (intro nearest_mono) simp
  then have d: "1 \<le> val d"
    using finite(2) by (simp add: nearest_representable)
  then have "val k * 1 \<le> val k * val d"
    using assms(3) by (intro mult_left_mono) simp_all
  with d have "0 \<le> val k / val d" and "val k / val d \<le> val k"
    using assms(3) by (simp_all add: divide_le_eq)
  then obtain t where "num (val k / val d) = Fin t" "0 \<le> val t" "val t \<le> val k"
    using num_between_real [of 0 "val k" "val k / val d"] by auto
  with d finite(1) show ?thesis
    by (intro that [of t]) (simp_all add: timeStep_def assms(2))
next
  case pinf
  with assms(3) show ?thesis
    by (intro that [of 0]) (simp_all add: timeStep_def assms(2))
next
  case ninf
  have "0 \<le> nearest (real_of_int (steps s))"
    using assms(1) by (intro nearest_nonneg) simp
  with ninf(2) pow2_pos [of 1024] have False by linarith
  then show ?thesis ..
qed

lemma generatePath_time:
  "i \<le> nat (steps s) \<Longrightarrow>
   time (generatePath s rnd ! i) = (if i = 0 then Fin 0 else num (real i) * timeStep s)"
  by (simp add: generatePath_nth sample_def)

lemma zero_times_finite [simp]: "Fin 0 * Fin t = Fin 0" "Fin t * Fin 0 = Fin 0"
  by simp_all

lemma generatePath_time_formula:
  assumes "0 < steps s" and "intervalLength s = Fin k" and "0 \<le> val k"
    and "i \<le> nat (steps s)"
  shows "time (generatePath s rnd ! i) = num (real i) * timeStep s"
proof -
  obtain t where "timeStep s = Fin t"
    using assms(1-3) by (rule timeStep_finite)
  with assms(4) show ?thesis
    by (simp add: generatePath_time)
qed

lemma generatePath_origin: "generatePath s rnd ! 0 = \<lparr>time = Fin 0, value = Fin 0\<rparr>"
  by (simp add: generatePath_nth sample_def)

lemma walk_zero_finite:
  assumes "\<forall>i. isFinite (normalDraw rnd i)" and "drift s = Fin 0" and "diffusion s = Fin 0"
    and "0 \<le> val t"
  shows "walk s rnd (Fin t) n = Fin 0"
proof (induction n)
  case 0
  show ?case by simp
next
  case (Suc n)
  from assms(1) have "isFinite (normalDraw rnd (Suc n))" by blast
  then obtain z where "fst (generateNormalRandom rnd (2 * n)) = Fin z"
    by (auto simp: normalDraw_def isFinite_iff)
  moreover obtain r where "Math_sqrt (Fin t) = Fin r"
    using assms(4) by (rule Math_sqrt_finite)
  ultimately show ?case
    using Suc assms(2,3) by simp
qed

lemma normalDraw_unit:
  assumes "\<forall>n. 0 < val (rnd n) \<and> val (rnd n) < 1"
  shows "isFinite (normalDraw rnd i)"
  unfolding normalDraw_def
  by (rule generateNormalRandom_unit) (use assms in \<open>simp_all add: less_imp_le\<close>)

lemma pow2_not_le_zero [simp]: "\<not> pow2 a \<le> 0"
  by (simp add: not_le)

lemma pow2_neg1: "pow2 (- 1) = 1 / 2"
  by (simp add: pow2_def power_int_minus inverse_eq_divide)

lemma representable_half [simp]: "representable (1 / 2)"
  using representable_scaled [of 1 "- 1"] by (simp add: pow2_neg1)

















text \<open>
  C2. The values follow the Euler-Maruyama recurrence: the first value is \<open>0\<close>, and for
  each step \<open>i\<close> from \<open>1\<close> to \<open>steps\<close> the value is the previous value plus
  \<open>dX = drift * dt + diffusion * sqrt(dt) * Z\<close>, where \<open>dt\<close> is
  \<open>intervalLength / steps\<close> and \<open>Z\<close> is the \<open>i\<close>-th normal draw of the generation.
\<close>

theorem generatePath_recurrence:
  "value (generatePath s rnd ! 0) = Fin 0
   \<and> (\<forall>i. 1 \<le> i \<and> i \<le> nat (steps s) \<longrightarrow>
         value (generatePath s rnd ! i)
           = value (generatePath s rnd ! (i - 1))
             + (drift s * timeStep s
                + diffusion s * Math_sqrt (timeStep s) * normalDraw rnd i))"
proof -
  have "value (generatePath s rnd ! i)
           = value (generatePath s rnd ! (i - 1))
             + (drift s * timeStep s
                + diffusion s * Math_sqrt (timeStep s) * normalDraw rnd i)"
    if "1 \<le> i \<and> i \<le> nat (steps s)" for i
  proof -
    from that obtain j where i: "i = Suc j" by (cases i) auto
    with that have "j \<le> nat (steps s)" by simp
    with that show ?thesis
      by (simp add: i generatePath_nth sample_def normalDraw_def)
  qed
  then show ?thesis
    by (simp add: generatePath_origin)
qed

theorem generatePath_recurrence_witness:
  "value (generatePath
      (initialState\<lparr>drift := num 1, diffusion := num 0, steps := 2, intervalLength := num 1\<rparr>)
      (constantSource (Dbl (1 / 2))) ! 1) = num (1 / 2)"
proof -
  let ?s = "initialState\<lparr>drift := num 1, diffusion := num 0, steps := 2, intervalLength := num 1\<rparr>"
  let ?rnd = "constantSource (Dbl (1 / 2))"
  note h = generatePath_recurrence [of ?s ?rnd]
  from h have "value (generatePath ?s ?rnd ! 1)
      = value (generatePath ?s ?rnd ! (1 - 1))
          + (drift ?s * timeStep ?s + diffusion ?s * Math_sqrt (timeStep ?s) * normalDraw ?rnd 1)"
    by (simp add: initialState_def)
  moreover from h have "value (generatePath ?s ?rnd ! 0) = Fin 0"
    by simp
  moreover have "isFinite (normalDraw ?rnd 1)"
    by (rule normalDraw_unit) (simp add: constantSource_def representable_half)
  then obtain z where "normalDraw ?rnd 1 = Fin z" by (auto simp: isFinite_iff)
  moreover have "timeStep ?s = Fin (Dbl (1 / 2))"
    by (simp add: timeStep_def num_representable representable_half)
  moreover obtain r where "Math_sqrt (Fin (Dbl (1 / 2))) = Fin r"
    by (rule Math_sqrt_finite [of "Dbl (1 / 2)"]) (simp add: representable_half)
  ultimately show ?thesis
    by (simp add: num_representable representable_half)
qed

section \<open>Zero draws\<close>




text \<open>
  The values of the path are another matter: with finite draws, a drift of \<open>2^1023\<close>
  over a step of \<open>4\<close> takes the first value to \<open>Infinity\<close>.
\<close>

lemma large_drift_overflows:
  "isFinite (normalDraw (constantSource (Dbl (1 / 2))) 1)
   \<and> value (generatePath
        (initialState\<lparr>drift := Fin (Dbl (pow2 1023)), diffusion := num 0, steps := 1,
           intervalLength := num 4\<rparr>)
        (constantSource (Dbl (1 / 2))) ! 1) = PInf"
proof -
  let ?rnd = "constantSource (Dbl (1 / 2))"
  have "\<forall>n. 0 < val (?rnd n) \<and> val (?rnd n) < 1"
    by (simp add: constantSource_def)
  then have "isFinite (normalDraw ?rnd 1)"
    by (simp add: normalDraw_unit)
  then obtain z where z: "normalDraw ?rnd 1 = Fin z"
    by (auto simp: isFinite_iff)
  have four: "pow2 1023 * 4 = pow2 1025"
    using pow2_add [of 1023 2] by (simp add: pow2_nat)
  have "Fin (Dbl (pow2 1023)) * Fin (Dbl 4) = PInf"
    by (simp add: representable_pow2 four num_pow2_1025)
  then show ?thesis
    using z by (simp add: generatePath_nth sample_def timeStep_def num_representable
        normalDraw_def)
qed

text \<open>
  C7 (as stated, refuted). With \<open>drift = 0\<close> and \<open>diffusion = 0\<close> a zero draw of the
  source makes the normal draw \<open>Infinity\<close>, and \<open>0 * Infinity\<close> is \<open>NaN\<close>: the value
  after the first step is \<open>NaN\<close>, not \<open>0\<close>.
\<close>

theorem zero_noise_zero_draw:
  "value (generatePath
      (initialState\<lparr>drift := num 0, diffusion := num 0, steps := 1, intervalLength := num 1\<rparr>)
      (constantSource 0) ! 1) = NaN"
  by (simp add: generatePath_nth sample_def timeStep_def generateNormalRandom_zero
      num_representable)

text \<open>
  C7 (amended). With \<open>drift = 0\<close> and \<open>diffusion = 0\<close>, a positive step count and a
  positive interval length, every value of the generated path is \<open>0\<close>, whatever the
  draws, as long as every normal draw is a finite number (as it is when the source
  returns numbers of the open interval between \<open>0\<close> and \<open>1\<close>).
\<close>

theorem zero_noise_path:
  assumes "drift s = Fin 0" and "diffusion s = Fin 0"
    and "0 < steps s" and "intervalLength s = Fin k" and "0 < val k"
    and "\<forall>i. isFinite (normalDraw rnd i)"
  shows "\<forall>p \<in> set (generatePath s rnd). value p = Fin 0"
proof -
  have "0 \<le> val k" using assms(5) by simp
  with assms(3,4) obtain t where "timeStep s = Fin t" "0 \<le> val t"
    by (rule timeStep_finite)
  then show ?thesis
    using assms by (simp add: set_generatePath sample_def walk_zero_finite)
qed

theorem zero_noise_path_witness:
  "value (generatePath (initialState\<lparr>diffusion := num 0\<rparr>) (constantSource (Dbl (1 / 2))) ! 0) = Fin 0
   \<and> value (generatePath (initialState\<lparr>diffusion := num 0\<rparr>) (constantSource (Dbl (1 / 2))) ! 1000)
       = Fin 0"
proof -
  let ?s = "initialState\<lparr>diffusion := num 0\<rparr>"
  let ?p = "generatePath ?s (constantSource (Dbl (1 / 2)))"
  have "\<forall>n. 0 < val (constantSource (Dbl (1 / 2)) n) \<and> val (constantSource (Dbl (1 / 2)) n) < 1"
    by (simp add: constantSource_def)
  then have "\<forall>i. isFinite (normalDraw (constantSource (Dbl (1 / 2))) i)"
    by (simp add: normalDraw_unit)
  moreover have "drift ?s = Fin 0" "diffusion ?s = Fin 0" "0 < steps ?s"
    "intervalLength ?s = Fin (Dbl 10)" "0 < val (Dbl 10)"
    by (simp_all add: initialState_def num_representable val_Dbl)
  ultimately have h: "\<forall>p \<in> set ?p. value p = Fin 0"
    by (intro zero_noise_path [where k = "Dbl 10"]) simp_all
  have "?p ! 0 \<in> set ?p" and "?p ! 1000 \<in> set ?p"
    by (rule nth_mem, simp add: length_generatePath initialState_def)+
  with h show ?thesis by blast
qed

section \<open>The playback loop\<close>

lemma animationCleanup_eq:
  "frames s = [] \<or> (\<exists>c. frames s = [(animationRef s, c)] \<and> animationRef s \<noteq> 0) \<Longrightarrow>
   animationCleanup s = s\<lparr>frames := []\<rparr>"
  by (auto simp: animationCleanup_def cancelAnimationFrame_def)

lemma animationEffect_eq:
  "frames s = [] \<Longrightarrow>
   animationEffect s =
     (if isAnimating s \<and> currentStep s + 1 < length (fullPath s)
      then s\<lparr>animationRef := lastHandle s + 1,
             frames := [(lastHandle s + 1, \<lparr>seenStep = currentStep s, seenPath = fullPath s\<rparr>)],
             lastHandle := lastHandle s + 1\<rparr>
      else s)"
  by (auto simp: animationEffect_def requestAnimationFrame_def Let_def)

lemma render_eq:
  assumes "frames s = [] \<or> (\<exists>c. frames s = [(animationRef s, c)] \<and> animationRef s \<noteq> 0)"
  shows "render s =
     (if isAnimating s \<and> currentStep s + 1 < length (fullPath s)
      then s\<lparr>animationRef := lastHandle s + 1,
             frames := [(lastHandle s + 1, \<lparr>seenStep = currentStep s, seenPath = fullPath s\<rparr>)],
             lastHandle := lastHandle s + 1\<rparr>
      else s\<lparr>frames := []\<rparr>)"
  unfolding render_def animationCleanup_eq [OF assms]
  by (simp add: animationEffect_eq)

lemma settled_handled: "settled s \<Longrightarrow> handled s"
  by (auto simp: settled_def handled_def split: if_splits)

lemma settled_render: "handled s \<Longrightarrow> settled (render s)"
  by (simp add: handled_def render_eq settled_def)

lemma handled_toggleAnimation: "settled s \<Longrightarrow> handled (toggleAnimation s)"
  by (auto simp: settled_def handled_def toggleAnimation_def cancelAnimationFrame_def Let_def
      split: if_splits)

lemma handled_resetSimulation:
  "frames s = [] \<or> (\<exists>c. frames s = [(animationRef s, c)] \<and> animationRef s \<noteq> 0) \<Longrightarrow>
   handled (resetSimulation rnd s)"
  by (auto simp: handled_def resetSimulation_def cancelAnimationFrame_def Let_def
      length_generatePath)

lemma resetSimulation_fields:
  "isAnimating (resetSimulation rnd s) = False" "currentStep (resetSimulation rnd s) = 0"
  "path (resetSimulation rnd s) = []" "fullPath (resetSimulation rnd s) = generatePath s rnd"
  "drift (resetSimulation rnd s) = drift s" "diffusion (resetSimulation rnd s) = diffusion s"
  "steps (resetSimulation rnd s) = steps s"
  "intervalLength (resetSimulation rnd s) = intervalLength s"
  by (simp_all add: resetSimulation_def cancelAnimationFrame_def Let_def)

text \<open>In a settled state the browser holds one callback exactly while the animation runs.\<close>

lemma animationFrame_idle:
  "settled s \<Longrightarrow> \<not> (isAnimating s \<and> currentStep s + 1 < length (fullPath s)) \<Longrightarrow>
   animationFrame s = s"
  by (auto simp: settled_def animationFrame_def)

lemma animationFrame_running:
  assumes "settled s" and "isAnimating s" and "currentStep s + 1 < length (fullPath s)"
  shows "animationFrame s =
     render (animate \<lparr>seenStep = currentStep s, seenPath = fullPath s\<rparr> (s\<lparr>frames := []\<rparr>))"
  using assms by (simp add: settled_def animationFrame_def)

lemma handled_animate:
  assumes "settled s" and "isAnimating s" and "currentStep s + 1 < length (fullPath s)"
  shows "handled (animate \<lparr>seenStep = currentStep s, seenPath = fullPath s\<rparr> (s\<lparr>frames := []\<rparr>))"
  using assms
  by (auto simp: settled_def handled_def animate_def requestAnimationFrame_def Let_def)

lemma animate_fields:
  fixes s :: simulator
  defines "t \<equiv> animate \<lparr>seenStep = currentStep s, seenPath = fullPath s\<rparr> (s\<lparr>frames := []\<rparr>)"
  assumes "isAnimating s"
  shows "currentStep t = currentStep s + 1"
    and "path t = take (currentStep s + 2) (fullPath s)"
    and "fullPath t = fullPath s"
    and "isAnimating t \<longleftrightarrow> currentStep s + 2 < length (fullPath s)"
    and "drift t = drift s" and "diffusion t = diffusion s"
    and "steps t = steps s" and "intervalLength t = intervalLength s"
  using assms(2) unfolding t_def
  by (auto simp: animate_def requestAnimationFrame_def Let_def)

lemma settled_animationFrame: "settled s \<Longrightarrow> settled (animationFrame s)"
proof (cases "isAnimating s \<and> currentStep s + 1 < length (fullPath s)")
  case True
  assume "settled s"
  with True show ?thesis
    by (simp add: animationFrame_running handled_animate settled_render)
next
  case False
  assume "settled s"
  with False show ?thesis by (simp add: animationFrame_idle)
qed

lemma settled_clickToggle: "settled s \<Longrightarrow> settled (clickToggle s)"
  by (simp add: clickToggle_def handled_toggleAnimation settled_render)

lemma settled_reset_with:
  "frames s = [] \<or> (\<exists>c. frames s = [(animationRef s, c)] \<and> animationRef s \<noteq> 0) \<Longrightarrow>
   settled (render (resetSimulation rnd s))"
  by (simp add: handled_resetSimulation settled_render)

lemma settled_frames:
  "settled s \<Longrightarrow> frames s = [] \<or> (\<exists>c. frames s = [(animationRef s, c)] \<and> animationRef s \<noteq> 0)"
  by (auto simp: settled_def split: if_splits)

lemma settled_clickReset: "settled s \<Longrightarrow> settled (clickReset rnd s)"
  unfolding clickReset_def
  by (rule settled_reset_with) (rule settled_frames)

lemma settled_mount: "settled (mount rnd)"
  unfolding mount_def
  by (rule settled_reset_with) (simp add: animationEffect_def initialState_def)

lemma settled_changeDrift: "settled s \<Longrightarrow> settled (changeDrift parsed rnd s)"
  unfolding changeDrift_def Let_def
  by (auto intro!: settled_reset_with dest: settled_frames)

lemma settled_changeDiffusion: "settled s \<Longrightarrow> settled (changeDiffusion parsed rnd s)"
  unfolding changeDiffusion_def Let_def
  by (auto intro!: settled_reset_with dest: settled_frames)

lemma settled_changeSteps: "settled s \<Longrightarrow> settled (changeSteps parsed rnd s)"
  unfolding changeSteps_def Let_def
  by (auto intro!: settled_reset_with dest: settled_frames)

lemma settled_changeIntervalLength: "settled s \<Longrightarrow> settled (changeIntervalLength parsed rnd s)"
  unfolding changeIntervalLength_def Let_def
  by (auto intro!: settled_reset_with dest: settled_frames)

lemma reachable_settled: "reachable s \<Longrightarrow> settled s"
proof (induction rule: reachable.induct)
  case (mounted rnd)
  show ?case by (rule settled_mount)
next
  case (toggled s)
  then show ?case by (simp add: settled_clickToggle)
next
  case (reset s rnd)
  then show ?case by (simp add: settled_clickReset)
next
  case (frame s)
  then show ?case by (simp add: settled_animationFrame)
next
  case (drift_changed s parsed rnd)
  then show ?case by (simp add: settled_changeDrift)
next
  case (diffusion_changed s parsed rnd)
  then show ?case by (simp add: settled_changeDiffusion)
next
  case (steps_changed s parsedInt rnd)
  then show ?case by (simp add: settled_changeSteps)
next
  case (interval_changed s parsed rnd)
  then show ?case by (simp add: settled_changeIntervalLength)
qed

text \<open>A render touches the browser's side and the ref only.\<close>

lemma render_fields:
  "isAnimating (render s) = isAnimating s" "currentStep (render s) = currentStep s"
  "path (render s) = path s" "fullPath (render s) = fullPath s"
  "drift (render s) = drift s" "diffusion (render s) = diffusion s"
  "steps (render s) = steps s" "intervalLength (render s) = intervalLength s"
  by (simp_all add: render_def animationCleanup_def animationEffect_def
      cancelAnimationFrame_def requestAnimationFrame_def Let_def)

lemma clickReset_fields:
  "isAnimating (clickReset rnd s) = False" "currentStep (clickReset rnd s) = 0"
  "path (clickReset rnd s) = []" "fullPath (clickReset rnd s) = generatePath s rnd"
  "drift (clickReset rnd s) = drift s" "diffusion (clickReset rnd s) = diffusion s"
  "steps (clickReset rnd s) = steps s"
  "intervalLength (clickReset rnd s) = intervalLength s"
  by (simp_all add: clickReset_def render_fields resetSimulation_fields)

lemma clickToggle_fields:
  "isAnimating (clickToggle s) = (\<not> isAnimating s)" "currentStep (clickToggle s) = currentStep s"
  "path (clickToggle s) = path s" "fullPath (clickToggle s) = fullPath s"
  "drift (clickToggle s) = drift s" "diffusion (clickToggle s) = diffusion s"
  "steps (clickToggle s) = steps s" "intervalLength (clickToggle s) = intervalLength s"
  by (simp_all add: clickToggle_def render_fields toggleAnimation_def cancelAnimationFrame_def
      Let_def)

lemma mount_fields:
  "isAnimating (mount rnd) = False" "currentStep (mount rnd) = 0" "path (mount rnd) = []"
  "fullPath (mount rnd) = generatePath initialState rnd"
  "steps (mount rnd) = 1000" "intervalLength (mount rnd) = Fin (Dbl 10)"
  by (simp_all add: mount_def render_fields resetSimulation_fields animationEffect_def
      initialState_def num_representable)

lemma settled_frames_iff:
  "settled s \<Longrightarrow>
   frames s = [] \<longleftrightarrow> \<not> (isAnimating s \<and> currentStep s + 1 < length (fullPath s))"
  by (auto simp: settled_def)

lemma animationFrame_fields:
  assumes "settled s" and "isAnimating s" and "currentStep s + 1 < length (fullPath s)"
  shows "currentStep (animationFrame s) = currentStep s + 1"
    and "path (animationFrame s) = take (currentStep s + 2) (fullPath s)"
    and "isAnimating (animationFrame s) \<longleftrightarrow> currentStep s + 2 < length (fullPath s)"
  using assms by (simp_all add: animationFrame_running render_fields animate_fields)

lemma animationFrame_fullPath: "settled s \<Longrightarrow> fullPath (animationFrame s) = fullPath s"
  by (cases "isAnimating s \<and> currentStep s + 1 < length (fullPath s)")
    (simp_all add: animationFrame_running animationFrame_idle render_fields animate_fields)

text \<open>
  \<open>N\<close> frames after a state in which the animation runs: one step per frame, until the
  last sample is revealed; then the animation is off and the frames find nothing to run.
\<close>

lemma run_frames:
  assumes "settled s" and "isAnimating s" and "currentStep s + 1 < length (fullPath s)"
  shows "settled ((animationFrame ^^ N) s)
    \<and> fullPath ((animationFrame ^^ N) s) = fullPath s
    \<and> currentStep ((animationFrame ^^ N) s) = min (currentStep s + N) (length (fullPath s) - 1)
    \<and> (isAnimating ((animationFrame ^^ N) s) \<longleftrightarrow> currentStep s + N + 1 < length (fullPath s))"
proof (induction N)
  case 0
  show ?case using assms by simp
next
  case (Suc N)
  let ?t = "(animationFrame ^^ N) s"
  from Suc have t: "settled ?t" "fullPath ?t = fullPath s"
    "currentStep ?t = min (currentStep s + N) (length (fullPath s) - 1)"
    "isAnimating ?t \<longleftrightarrow> currentStep s + N + 1 < length (fullPath s)"
    by simp_all
  show ?case
  proof (cases "currentStep s + N + 1 < length (fullPath s)")
    case True
    with t have run: "isAnimating ?t" "currentStep ?t + 1 < length (fullPath ?t)"
      and at: "currentStep ?t = currentStep s + N"
      by simp_all
    show ?thesis
      using True t(1,2) at animationFrame_fields [OF t(1) run]
      by (simp add: settled_animationFrame animationFrame_fullPath)
  next
    case False
    with t have "animationFrame ?t = ?t"
      by (simp add: animationFrame_idle)
    with False t show ?thesis by simp
  qed
qed

lemma reachable_bound: "reachable s \<Longrightarrow> revealedCount s \<le> length (fullPath s)"
  by (drule reachable_settled) (simp add: settled_def revealedCount_def)

text \<open>
  C3. From a stopped state with \<open>revealedCount = 1\<close> and a path of at least two samples
  (a positive step count), \<open>start\<close> followed by \<open>N\<close> frames gives
  \<open>revealedCount = min (1 + N) (length fullPath)\<close>; the animation runs exactly while
  samples remain, and once the last one is revealed no callback waits for a frame. In
  every reachable state \<open>revealedCount\<close> is at most the length of the full path.
\<close>

theorem playback_run:
  assumes "reachable s" and "\<not> isAnimating s" and "revealedCount s = 1"
    and "2 \<le> length (fullPath s)"
  shows "revealedCount ((animationFrame ^^ N) (clickToggle s)) = min (1 + N) (length (fullPath s))
    \<and> (isAnimating ((animationFrame ^^ N) (clickToggle s)) \<longleftrightarrow> 1 + N < length (fullPath s))
    \<and> (frames ((animationFrame ^^ N) (clickToggle s)) = [] \<longleftrightarrow> length (fullPath s) \<le> 1 + N)
    \<and> fullPath ((animationFrame ^^ N) (clickToggle s)) = fullPath s
    \<and> (\<forall>t. reachable t \<longrightarrow> revealedCount t \<le> length (fullPath t))"
proof -
  let ?s = "clickToggle s"
  let ?t = "(animationFrame ^^ N) ?s"
  have s: "settled ?s" "isAnimating ?s" "currentStep ?s = 0" "fullPath ?s = fullPath s"
    using assms by (simp_all add: reachable_settled settled_clickToggle clickToggle_fields
        revealedCount_def)
  with assms(4) have "currentStep ?s + 1 < length (fullPath ?s)" by simp
  from run_frames [OF s(1,2) this, of N] s(3,4)
  have t: "settled ?t" "fullPath ?t = fullPath s"
    "currentStep ?t = min N (length (fullPath s) - 1)"
    "isAnimating ?t \<longleftrightarrow> N + 1 < length (fullPath s)"
    by simp_all
  have "revealedCount ?t = min (1 + N) (length (fullPath s))"
    using t(3) assms(4) by (simp add: revealedCount_def)
  moreover have "frames ?t = [] \<longleftrightarrow> length (fullPath s) \<le> 1 + N"
    using t assms(4) by (auto simp: settled_frames_iff)
  ultimately show ?thesis
    using t(2,4) by (simp add: reachable_bound)
qed

theorem playback_run_witness:
  "revealedCount ((animationFrame ^^ 3) (clickToggle (mount (constantSource (Dbl (1 / 2)))))) = 4
   \<and> isAnimating ((animationFrame ^^ 3) (clickToggle (mount (constantSource (Dbl (1 / 2))))))
   \<and> revealedCount ((animationFrame ^^ 1000) (clickToggle (mount (constantSource (Dbl (1 / 2)))))) = 1001
   \<and> \<not> isAnimating ((animationFrame ^^ 1000) (clickToggle (mount (constantSource (Dbl (1 / 2))))))
   \<and> frames ((animationFrame ^^ 1000) (clickToggle (mount (constantSource (Dbl (1 / 2)))))) = []
   \<and> revealedCount ((animationFrame ^^ 2000) (clickToggle (mount (constantSource (Dbl (1 / 2)))))) = 1001"
proof -
  let ?s = "mount (constantSource (Dbl (1 / 2)))"
  have p: "reachable ?s" "\<not> isAnimating ?s" "revealedCount ?s = 1" "2 \<le> length (fullPath ?s)"
    by (simp_all add: reachable.mounted mount_fields revealedCount_def length_generatePath
        initialState_def)
  have l: "length (fullPath ?s) = 1001"
    by (simp add: mount_fields length_generatePath initialState_def)
  show ?thesis
    using playback_run [OF p, of 3] playback_run [OF p, of 1000] playback_run [OF p, of 2000]
    by (simp add: l)
qed

text \<open>
  C4. From any reachable state with a positive step count and a positive interval length,
  a reset leaves the animation off with \<open>revealedCount = 1\<close> and an empty revealed path,
  no callback waits for a frame (a later frame changes nothing), and the full path is a
  newly generated one: \<open>steps + 1\<close> samples, the first \<open>{time: 0, value: 0}\<close>, the time
  of sample \<open>i\<close> being \<open>i * (intervalLength / steps)\<close> as the program computes it.
\<close>

theorem reset_fresh_path:
  assumes "reachable s" and "0 < steps s" and "intervalLength s = Fin k" and "0 < val k"
  shows "\<not> isAnimating (clickReset rnd s) \<and> revealedCount (clickReset rnd s) = 1
    \<and> path (clickReset rnd s) = []
    \<and> frames (clickReset rnd s) = []
    \<and> animationFrame (clickReset rnd s) = clickReset rnd s
    \<and> fullPath (clickReset rnd s) = generatePath s rnd
    \<and> length (fullPath (clickReset rnd s)) = nat (steps s) + 1
    \<and> fullPath (clickReset rnd s) ! 0 = \<lparr>time = Fin 0, value = Fin 0\<rparr>
    \<and> (\<forall>i \<le> nat (steps s).
          time (fullPath (clickReset rnd s) ! i)
            = num (real i) * (Fin k / num (real_of_int (steps s))))"
proof -
  have st: "settled (clickReset rnd s)"
    using assms(1) by (simp add: reachable_settled settled_clickReset)
  then have "frames (clickReset rnd s) = []"
    by (simp add: settled_frames_iff clickReset_fields)
  moreover from st have "animationFrame (clickReset rnd s) = clickReset rnd s"
    by (simp add: animationFrame_idle clickReset_fields)
  moreover have "time (generatePath s rnd ! i) = num (real i) * (Fin k / num (real_of_int (steps s)))"
    if "i \<le> nat (steps s)" for i
    using generatePath_time_formula [OF assms(2,3) _ that, of rnd] assms(3,4)
    by (simp add: timeStep_def)
  ultimately show ?thesis
    using assms(2,3)
    by (simp add: clickReset_fields revealedCount_def length_generatePath generatePath_origin)
qed

theorem reset_fresh_path_witness:
  "frames (clickToggle (mount (constantSource (Dbl (1 / 2))))) \<noteq> []
   \<and> \<not> isAnimating (clickReset (constantSource (Dbl (1 / 4))) (clickToggle (mount (constantSource (Dbl (1 / 2))))))
   \<and> revealedCount (clickReset (constantSource (Dbl (1 / 4))) (clickToggle (mount (constantSource (Dbl (1 / 2)))))) = 1
   \<and> frames (clickReset (constantSource (Dbl (1 / 4))) (clickToggle (mount (constantSource (Dbl (1 / 2)))))) = []
   \<and> length (fullPath (clickReset (constantSource (Dbl (1 / 4))) (clickToggle (mount (constantSource (Dbl (1 / 2))))))) = 1001
   \<and> time (fullPath (clickReset (constantSource (Dbl (1 / 4))) (clickToggle (mount (constantSource (Dbl (1 / 2)))))) ! 500)
       = num 5"
proof -
  let ?s = "clickToggle (mount (constantSource (Dbl (1 / 2))))"
  have r: "reachable ?s"
    by (intro reachable.toggled reachable.mounted)
  have p: "0 < steps ?s" "intervalLength ?s = Fin (Dbl 10)" "0 < val (Dbl 10)"
    by (simp_all add: clickToggle_fields mount_fields)
  note h = reset_fresh_path [OF r p, of "constantSource (Dbl (1 / 4))"]
  have "frames ?s \<noteq> []"
    using reachable_settled [OF r]
    by (simp add: settled_frames_iff clickToggle_fields mount_fields length_generatePath
        initialState_def)
  moreover from h have "\<forall>i \<le> nat (steps ?s).
      time (fullPath (clickReset (constantSource (Dbl (1 / 4))) ?s) ! i)
        = num (real i) * (Fin (Dbl 10) / num (real_of_int (steps ?s)))"
    by blast
  then have "time (fullPath (clickReset (constantSource (Dbl (1 / 4))) ?s) ! 500)
      = num 500 * (num 10 / num 1000)"
    by (simp add: clickToggle_fields mount_fields num_representable)
  then have "time (fullPath (clickReset (constantSource (Dbl (1 / 4))) ?s) ! 500) = num 5"
    by (simp only: time_500)
  moreover from h have "length (fullPath (clickReset (constantSource (Dbl (1 / 4))) ?s)) = nat (steps ?s) + 1"
    by blast
  then have "length (fullPath (clickReset (constantSource (Dbl (1 / 4))) ?s)) = 1001"
    by (simp add: clickToggle_fields mount_fields)
  moreover from h have "\<not> isAnimating (clickReset (constantSource (Dbl (1 / 4))) ?s)"
    and "revealedCount (clickReset (constantSource (Dbl (1 / 4))) ?s) = 1"
    and "frames (clickReset (constantSource (Dbl (1 / 4))) ?s) = []"
    by blast+
  ultimately show ?thesis
    by blast
qed

text \<open>
  C5. A pause in a running state only switches the animation off and removes the waiting
  callback: every other part of the state is as before, and the next frame changes
  nothing. A start followed at once by a pause, from a stopped state with
  \<open>revealedCount = 1\<close>, leaves \<open>revealedCount\<close> at \<open>1\<close>.
\<close>

theorem pause_keeps_position:
  assumes "reachable s"
  shows "(isAnimating s \<longrightarrow>
            clickToggle s = s\<lparr>isAnimating := False, frames := []\<rparr>
            \<and> animationFrame (clickToggle s) = clickToggle s)
    \<and> (\<not> isAnimating s \<and> revealedCount s = 1 \<longrightarrow>
            revealedCount (clickToggle (clickToggle s)) = 1
            \<and> path (clickToggle (clickToggle s)) = path s
            \<and> \<not> isAnimating (clickToggle (clickToggle s))
            \<and> frames (clickToggle (clickToggle s)) = []
            \<and> animationFrame (clickToggle (clickToggle s)) = clickToggle (clickToggle s))"
proof -
  have st: "settled s" using assms by (rule reachable_settled)
  have paused: "clickToggle s = s\<lparr>isAnimating := False, frames := []\<rparr>" if "isAnimating s"
  proof -
    have "toggleAnimation s = s\<lparr>isAnimating := False, frames := []\<rparr>"
      using st that
      by (auto simp: settled_def toggleAnimation_def cancelAnimationFrame_def Let_def
          split: if_splits)
    then show ?thesis
      by (simp add: clickToggle_def render_eq)
  qed
  have idle: "animationFrame (clickToggle t) = clickToggle t" if "settled t" "isAnimating t" for t
    using that by (simp add: animationFrame_idle settled_clickToggle clickToggle_fields)
  let ?u = "clickToggle (clickToggle s)"
  have "revealedCount ?u = 1 \<and> path ?u = path s \<and> \<not> isAnimating ?u \<and> frames ?u = []
      \<and> animationFrame ?u = ?u"
    if "\<not> isAnimating s \<and> revealedCount s = 1"
  proof -
    have t: "settled (clickToggle s)" "isAnimating (clickToggle s)"
      using st that by (simp_all add: settled_clickToggle clickToggle_fields)
    have "settled ?u" using t(1) by (rule settled_clickToggle)
    then have "frames ?u = []"
      using that by (simp add: settled_frames_iff clickToggle_fields)
    then show ?thesis
      using that idle [OF t] by (simp add: clickToggle_fields revealedCount_def)
  qed
  then show ?thesis
    using paused idle [OF st] by blast
qed

theorem pause_keeps_position_witness:
  "clickToggle (animationFrame (clickToggle (mount (constantSource (Dbl (1 / 2))))))
     = (animationFrame (clickToggle (mount (constantSource (Dbl (1 / 2))))))\<lparr>isAnimating := False, frames := []\<rparr>
   \<and> revealedCount (clickToggle (animationFrame (clickToggle (mount (constantSource (Dbl (1 / 2))))))) = 2
   \<and> revealedCount (clickToggle (clickToggle (mount (constantSource (Dbl (1 / 2)))))) = 1
   \<and> animationFrame (clickToggle (clickToggle (mount (constantSource (Dbl (1 / 2))))))
       = clickToggle (clickToggle (mount (constantSource (Dbl (1 / 2)))))"
proof -
  let ?m = "mount (constantSource (Dbl (1 / 2)))"
  let ?s = "animationFrame (clickToggle ?m)"
  have sm: "settled (clickToggle ?m)"
    by (intro reachable_settled reachable.toggled reachable.mounted)
  have run: "isAnimating (clickToggle ?m)" "currentStep (clickToggle ?m) + 1 < length (fullPath (clickToggle ?m))"
    by (simp_all add: clickToggle_fields mount_fields length_generatePath initialState_def)
  have r: "reachable ?s"
    by (intro reachable.frame reachable.toggled reachable.mounted)
  have a: "isAnimating ?s" "currentStep ?s = 1"
    using animationFrame_fields [OF sm run]
    by (simp_all add: clickToggle_fields mount_fields length_generatePath initialState_def)
  have b: "\<not> isAnimating ?m \<and> revealedCount ?m = 1"
    by (simp add: mount_fields revealedCount_def)
  from pause_keeps_position [OF r] a(1)
  have "clickToggle ?s = ?s\<lparr>isAnimating := False, frames := []\<rparr>" by blast
  moreover from this have "revealedCount (clickToggle ?s) = 2"
    by (simp add: revealedCount_def a)
  moreover from pause_keeps_position [OF reachable.mounted, of "constantSource (Dbl (1 / 2))"] b
  have "revealedCount (clickToggle (clickToggle ?m)) = 1
      \<and> animationFrame (clickToggle (clickToggle ?m)) = clickToggle (clickToggle ?m)"
    by blast
  ultimately show ?thesis by blast
qed

lemma settled_path:
  "settled s \<Longrightarrow> path s = [] \<and> currentStep s = 0 \<or> path s = take (currentStep s + 1) (fullPath s)"
  by (simp add: settled_def)

text \<open>
  C9. In every reachable state the revealed path is an initial segment of the full path:
  it is empty (right after a reset, as long as no frame has fired) or the first
  \<open>currentStep + 1\<close> samples. After a frame that runs the callback it is
  \<open>fullPath.slice(0, currentStep + 1)\<close>; a frame leaves the full path as it is.
\<close>

theorem revealed_prefix:
  assumes "reachable s"
  shows "prefix (path s) (fullPath s)
    \<and> (path s = [] \<and> currentStep s = 0 \<or> path s = take (currentStep s + 1) (fullPath s))
    \<and> (frames s \<noteq> [] \<longrightarrow>
          path (animationFrame s)
            = take (currentStep (animationFrame s) + 1) (fullPath (animationFrame s)))
    \<and> fullPath (animationFrame s) = fullPath s
    \<and> path (clickReset rnd s) = []"
proof -
  have st: "settled s" using assms by (rule reachable_settled)
  from settled_path [OF st] have "prefix (path s) (fullPath s)"
    by (auto simp: take_is_prefix)
  moreover have "path (animationFrame s)
      = take (currentStep (animationFrame s) + 1) (fullPath (animationFrame s))"
    if "frames s \<noteq> []"
  proof -
    from that st have "isAnimating s" "currentStep s + 1 < length (fullPath s)"
      by (simp_all add: settled_frames_iff)
    from animationFrame_fields [OF st this] show ?thesis
      by (simp add: animationFrame_fullPath [OF st])
  qed
  ultimately show ?thesis
    using settled_path [OF st] by (simp add: animationFrame_fullPath [OF st] clickReset_fields)
qed

theorem revealed_prefix_witness:
  "prefix (path (animationFrame (clickToggle (mount (constantSource (Dbl (1 / 2)))))))
     (fullPath (animationFrame (clickToggle (mount (constantSource (Dbl (1 / 2)))))))
   \<and> path (animationFrame (clickToggle (mount (constantSource (Dbl (1 / 2))))))
       = take 2 (generatePath initialState (constantSource (Dbl (1 / 2))))
   \<and> path (clickReset (constantSource (Dbl (1 / 4))) (animationFrame (clickToggle (mount (constantSource (Dbl (1 / 2))))))) = []"
proof -
  let ?m = "mount (constantSource (Dbl (1 / 2)))"
  let ?s = "clickToggle ?m"
  have r: "reachable ?s"
    by (intro reachable.toggled reachable.mounted)
  have run: "isAnimating ?s" "currentStep ?s + 1 < length (fullPath ?s)"
    by (simp_all add: clickToggle_fields mount_fields length_generatePath initialState_def)
  have f: "frames ?s \<noteq> []"
    using reachable_settled [OF r] run by (simp add: settled_frames_iff)
  have c: "currentStep (animationFrame ?s) = 1"
    using animationFrame_fields(1) [OF reachable_settled [OF r] run]
    by (simp add: clickToggle_fields mount_fields)
  from revealed_prefix [OF r, of "constantSource (Dbl (1 / 4))"] f
  have "path (animationFrame ?s)
      = take (currentStep (animationFrame ?s) + 1) (fullPath (animationFrame ?s))"
    and "fullPath (animationFrame ?s) = fullPath ?s"
    by blast+
  then have "path (animationFrame ?s) = take 2 (generatePath initialState (constantSource (Dbl (1 / 2))))"
    by (simp add: c clickToggle_fields mount_fields numeral_2_eq_2)
  moreover from revealed_prefix [OF reachable.frame [OF r], of "constantSource (Dbl (1 / 4))"]
  have "prefix (path (animationFrame ?s)) (fullPath (animationFrame ?s))"
    and "path (clickReset (constantSource (Dbl (1 / 4))) (animationFrame ?s)) = []"
    by blast+
  ultimately show ?thesis by blast
qed

text \<open>
  C10. While the revealed path is empty the current time and the current value read
  \<open>0\<close>; this is the case right after a reset and after the start that follows it, before
  the first frame.
\<close>

theorem current_sample_origin:
  "(path s = [] \<longrightarrow> currentTime s = Fin 0 \<and> currentValue s = Fin 0)
   \<and> path (clickReset rnd s) = []
   \<and> currentTime (clickReset rnd s) = Fin 0 \<and> currentValue (clickReset rnd s) = Fin 0
   \<and> path (clickToggle (clickReset rnd s)) = []
   \<and> currentTime (clickToggle (clickReset rnd s)) = Fin 0
   \<and> currentValue (clickToggle (clickReset rnd s)) = Fin 0"
  by (simp add: currentTime_def currentValue_def clickReset_fields clickToggle_fields)

theorem current_sample_origin_witness:
  "currentTime initialState = Fin 0 \<and> currentValue initialState = Fin 0
   \<and> currentTime (mount (constantSource (Dbl (1 / 2)))) = Fin 0 \<and> currentValue (mount (constantSource (Dbl (1 / 2)))) = Fin 0"
proof -
  have "path initialState = []" and "path (mount (constantSource (Dbl (1 / 2)))) = []"
    by (simp_all add: initialState_def mount_fields)
  with current_sample_origin [of initialState] current_sample_origin [of "mount (constantSource (Dbl (1 / 2)))"]
  show ?thesis by blast
qed

section \<open>The range of the value axis\<close>

text \<open>The doubles of the literals \<open>1.2\<close> and \<open>3.6\<close>, and the product \<open>3 * 1.2\<close>.\<close>

lemma nearest_12: "nearest (6 / 5) = 5404319552844595 * pow2 (- 52)"
proof -
  have "round_even (6 / 5 / pow2 (0 - 52)) = 5404319552844595"
    by (rule round_even_near) (simp add: pow2_m52)
  from nearest_eq [OF _ _ _ this] show ?thesis
    by (simp add: pow2_1)
qed

lemma nearest_36: "nearest (18 / 5) = 8106479329266893 * pow2 (- 51)"
proof -
  have "round_even (18 / 5 / pow2 (1 - 52)) = 8106479329266893"
    by (rule round_even_near) (simp add: pow2_m51)
  from nearest_eq [OF _ _ _ this] show ?thesis
    by (simp add: pow2_1 pow2_2)
qed

lemma nearest_3_times_12:
  "nearest (3 * (5404319552844595 * pow2 (- 52))) = 8106479329266892 * pow2 (- 51)"
proof -
  have "round_even (3 * (5404319552844595 * pow2 (- 52)) / pow2 (1 - 52)) = 8106479329266892"
    by (rule round_even_half) (simp_all add: pow2_m52 pow2_m51)
  from nearest_eq [OF _ _ _ this] show ?thesis
    by (simp add: pow2_1 pow2_2 pow2_m52)
qed


lemma num_12: "num (6 / 5) = Fin (Dbl (5404319552844595 * pow2 (- 52)))"
proof -
  have "representable (of_int 5404319552844595 * pow2 (- 52))"
    by (rule representable_scaled) simp_all
  then have r: "representable (5404319552844595 * pow2 (- 52))" by simp
  from nearest_12 r show ?thesis by (rule num_eqI)
qed

lemma num_36: "num (18 / 5) = Fin (Dbl (8106479329266893 * pow2 (- 51)))"
proof -
  have "representable (of_int 8106479329266893 * pow2 (- 51))"
    by (rule representable_scaled) simp_all
  then have r: "representable (8106479329266893 * pow2 (- 51))" by simp
  from nearest_36 r show ?thesis by (rule num_eqI)
qed

lemma three_times_12:
  "num 3 * num (6 / 5) = Fin (Dbl (8106479329266892 * pow2 (- 51)))"
  "val (Dbl (8106479329266892 * pow2 (- 51))) = 8106479329266892 * pow2 (- 51)"
  "val (Dbl (8106479329266893 * pow2 (- 51))) = 8106479329266893 * pow2 (- 51)"
proof -
  have "representable (of_int 5404319552844595 * pow2 (- 52))"
    by (rule representable_scaled) simp_all
  then have a: "representable (5404319552844595 * pow2 (- 52))" by simp
  have "representable (of_int 8106479329266892 * pow2 (- 51))"
    by (rule representable_scaled) simp_all
  then have r: "representable (8106479329266892 * pow2 (- 51))" by simp
  have "representable (of_int 8106479329266893 * pow2 (- 51))"
    by (rule representable_scaled) simp_all
  then have q: "representable (8106479329266893 * pow2 (- 51))" by simp
  from r show "val (Dbl (8106479329266892 * pow2 (- 51))) = 8106479329266892 * pow2 (- 51)"
    by simp
  from q show "val (Dbl (8106479329266893 * pow2 (- 51))) = 8106479329266893 * pow2 (- 51)"
    by simp
  have "num 3 * num (6 / 5) = num (3 * (5404319552844595 * pow2 (- 52)))"
    using a by (simp add: num_12 num_representable)
  also from nearest_3_times_12 r
  have "\<dots> = Fin (Dbl (8106479329266892 * pow2 (- 51)))"
    by (rule num_eqI)
  finally show "num 3 * num (6 / 5) = Fin (Dbl (8106479329266892 * pow2 (- 51)))" .
qed

lemma three_times_12_floor:
  "max2 (Fin (Dbl (8106479329266892 * pow2 (- 51)))) (Fin (Dbl (1 / 2)))
     = Fin (Dbl (8106479329266892 * pow2 (- 51)))"
proof -
  have "val (Dbl (1 / 2)) < val (Dbl (8106479329266892 * pow2 (- 51)))"
    unfolding three_times_12(2) by (simp add: pow2_m51)
  then show ?thesis by simp
qed

lemma three_times_12_below:
  "Fin (Dbl (8106479329266892 * pow2 (- 51))) < num (18 / 5)"
  unfolding num_36 less_jsnum.simps three_times_12(2,3) by simp

text \<open>\<open>Math.max\<close> and \<open>Math.min\<close> on finite numbers.\<close>

lemma max2_Fin: "max2 (Fin a) (Fin b) = Fin (max a b)"
  by (cases "val a = val b") (auto simp: max_def less_eq_double_def val_inject)

lemma min2_Fin: "min2 (Fin a) (Fin b) = Fin (min a b)"
  by (cases "val a = val b") (auto simp: min_def less_eq_double_def val_inject)

lemma max2_NInf [simp]: "max2 NInf a = a"
  by (cases a) simp_all

lemma min2_PInf [simp]: "min2 PInf a = a"
  by (cases a) simp_all

lemma foldl_max2_Fin: "foldl max2 (Fin a) (map Fin xs) = Fin (fold max xs a)"
  by (induction xs arbitrary: a) (simp_all add: max2_Fin max.commute del: max2.simps)

lemma foldl_min2_Fin: "foldl min2 (Fin a) (map Fin xs) = Fin (fold min xs a)"
  by (induction xs arbitrary: a) (simp_all add: min2_Fin min.commute del: min2.simps)

lemma Math_max_Fin: "xs \<noteq> [] \<Longrightarrow> Math_max (map Fin xs) = Fin (Max (set xs))"
  by (cases xs) (simp_all add: Math_max_def foldl_max2_Fin Max.set_eq_fold [symmetric])

lemma Math_min_Fin: "xs \<noteq> [] \<Longrightarrow> Math_min (map Fin xs) = Fin (Min (set xs))"
  by (cases xs) (simp_all add: Math_min_def foldl_min2_Fin Min.set_eq_fold [symmetric])

lemma Math_max_pair: "Math_max [a, b] = max2 a b"
  by (simp add: Math_max_def)

lemma val_max: "val (max a b) = max (val a) (val b)"
  by (simp add: max_def less_eq_double_def)

lemma val_min: "val (min a b) = min (val a) (val b)"
  by (simp add: min_def less_eq_double_def)

lemma mono_val: "mono val"
  by (rule monoI) (simp add: less_eq_double_def)

lemma val_Max: "xs \<noteq> [] \<Longrightarrow> val (Max (set xs)) = Max (val ` set xs)"
  by (rule mono_Max_commute [OF mono_val]) simp_all

lemma val_Min: "xs \<noteq> [] \<Longrightarrow> val (Min (set xs)) = Min (val ` set xs)"
  by (rule mono_Min_commute [OF mono_val]) simp_all

lemma representable_abs [simp]: "representable \<bar>x\<bar> \<longleftrightarrow> representable x"
  by (simp add: abs_if)

lemma Math_abs_Fin: "Math_abs (Fin a) = Fin (Dbl \<bar>val a\<bar>)"
  by (simp add: Math_abs_def num_representable)

lemma max_Dbl: "representable p \<Longrightarrow> representable q \<Longrightarrow> max (Dbl p) (Dbl q) = Dbl (max p q)"
  by (simp add: max_def less_eq_double_def)

lemma Math_max_abs:
  "Math_max [Math_abs (Fin a), Math_abs (Fin b)] = Fin (Dbl (max \<bar>val a\<bar> \<bar>val b\<bar>))"
  by (simp add: Math_max_pair Math_abs_Fin max2_Fin max_Dbl)

lemma max_abs_Min_Max:
  fixes S :: "real set"
  assumes "finite S" and "S \<noteq> {}"
  shows "max \<bar>Min S\<bar> \<bar>Max S\<bar> = Max (abs ` S)"
proof (rule antisym)
  have "\<bar>Min S\<bar> \<in> abs ` S" and "\<bar>Max S\<bar> \<in> abs ` S"
    using assms by simp_all
  then show "max \<bar>Min S\<bar> \<bar>Max S\<bar> \<le> Max (abs ` S)"
    using assms by simp
  have "\<bar>x\<bar> \<le> max \<bar>Min S\<bar> \<bar>Max S\<bar>" if "x \<in> S" for x
  proof -
    have "Min S \<le> x" and "x \<le> Max S" using assms that by simp_all
    then show ?thesis by (simp add: max_def abs_if split: if_splits)
  qed
  then show "Max (abs ` S) \<le> max \<bar>Min S\<bar> \<bar>Max S\<bar>"
    using assms by (intro Max.boundedI) auto
qed

lemma representable_Max_abs:
  assumes "vs \<noteq> []"
  shows "representable (Max (abs ` val ` set vs))"
proof -
  have "Max (abs ` val ` set vs) \<in> abs ` val ` set vs"
    using assms by (intro Max_in) simp_all
  then show ?thesis by auto
qed

lemma range_y_Fin:
  assumes "fp \<noteq> []" and "map value fp = map Fin vs"
  shows "range_y fp = max2 (Fin (Dbl (Max (abs ` val ` set vs))) * num (6 / 5)) (num (1 / 2))"
    and "rangePolicy vs = max2 (Fin (Dbl (Max (abs ` val ` set vs))) * num (6 / 5)) (num (1 / 2))"
proof -
  from assms have vs: "vs \<noteq> []" by auto
  define a where "a = Min (val ` set vs)"
  define b where "b = Max (val ` set vs)"
  have le: "a \<le> b" unfolding a_def b_def using vs by simp
  have m: "max \<bar>a\<bar> \<bar>b\<bar> = Max (abs ` val ` set vs)"
    unfolding a_def b_def using vs by (intro max_abs_Min_Max) simp_all
  have all: "map value fp @ [num 0] = map Fin (vs @ [0])"
    using assms(2) by simp
  have mn: "Math_min (map value fp @ [num 0]) = Fin (min (Min (set vs)) 0)"
    unfolding all using vs by (subst Math_min_Fin) (simp_all add: min.commute)
  have mx: "Math_max (map value fp @ [num 0]) = Fin (max (Max (set vs)) 0)"
    unfolding all using vs by (subst Math_max_Fin) (simp_all add: max.commute)
  have "max \<bar>min a 0\<bar> \<bar>max b 0\<bar> = max \<bar>a\<bar> \<bar>b\<bar>"
    using le by (simp add: max_def min_def abs_if split: if_splits)
  then have inner: "Math_max [Math_abs (Fin (min (Min (set vs)) 0)), Math_abs (Fin (max (Max (set vs)) 0))]
      = Fin (Dbl (Max (abs ` val ` set vs)))"
    using vs by (simp add: Math_max_abs val_min val_max val_Min val_Max a_def b_def m [unfolded a_def b_def])
  show "range_y fp = max2 (Fin (Dbl (Max (abs ` val ` set vs))) * num (6 / 5)) (num (1 / 2))"
    unfolding range_y_def Let_def mn mx inner by (simp add: Math_max_pair)
  have "Math_max [Math_abs (Fin (Min (set vs))), Math_abs (Fin (Max (set vs)))]
      = Fin (Dbl (Max (abs ` val ` set vs)))"
    using vs by (simp add: Math_max_abs val_Min val_Max m [unfolded a_def b_def])
  then show "rangePolicy vs = max2 (Fin (Dbl (Max (abs ` val ` set vs))) * num (6 / 5)) (num (1 / 2))"
    unfolding rangePolicy_def by (simp add: Math_max_pair num_12 mult.commute)
qed


lemma pow2_m56: "pow2 (- 56) = 1 / 72057594037927936"
  using pow2_minus_nat [of 56] by simp

lemma pow2_m4: "pow2 (- 4) = 1 / 16"
  using pow2_minus_nat [of 4] by simp

lemma pow2_m3: "pow2 (- 3) = 1 / 8"
  using pow2_minus_nat [of 3] by simp

lemma nearest_tenth: "nearest (1 / 10) = 7205759403792794 * pow2 (- 56)"
proof -
  have "round_even (1 / 10 / pow2 (- 4 - 52)) = 7205759403792794"
    by (rule round_even_near) (simp add: pow2_m56)
  from nearest_eq [OF _ _ _ this] show ?thesis
    by (simp add: pow2_m4 pow2_m3)
qed

lemma representable_tenth: "representable (7205759403792794 * pow2 (- 56))"
  using representable_scaled [of 7205759403792794 "- 56"] by simp

lemma num_tenth: "num (1 / 10) = Fin (Dbl (7205759403792794 * pow2 (- 56)))"
  using nearest_tenth representable_tenth by (rule num_eqI)

lemma representable_sixteenth [simp]: "representable (1 / 16)"
  using representable_scaled [of 1 "- 4"] by (simp add: pow2_m4)

lemma max2_floor:
  assumes "representable m" and "0 \<le> m" and "m \<le> 1 / 4"
  shows "max2 (Fin (Dbl m) * num (6 / 5)) (num (1 / 2)) = num (1 / 2)"
proof -
  have c: "representable (5404319552844595 * pow2 (- 52))"
    using representable_scaled [of 5404319552844595 "- 52"] by simp
  have "0 \<le> m * (5404319552844595 * pow2 (- 52))"
    using assms(2) by simp
  moreover have "m * (5404319552844595 * pow2 (- 52)) \<le> 1 / 4 * 2"
    using assms(2,3) by (intro mult_mono) (simp_all add: pow2_m52)
  ultimately obtain d where d: "num (m * (5404319552844595 * pow2 (- 52))) = Fin d"
    "0 \<le> val d" "val d \<le> 1 / 2"
    using num_between_real [of 0 "1 / 2" "m * (5404319552844595 * pow2 (- 52))"] by auto
  have "Fin (Dbl m) * num (6 / 5) = Fin d"
    using assms(1) c d(1) by (simp add: num_12)
  moreover have "max d (Dbl (1 / 2)) = Dbl (1 / 2)"
    using d(3) by (simp add: max_def less_eq_double_def)
  ultimately show ?thesis
    by (simp add: num_representable max2_Fin del: max2.simps)
qed

text \<open>
  C8 (as stated, refuted). For a path whose largest absolute value is \<open>3\<close> the range is
  the product \<open>3 * 1.2\<close> of the program's arithmetic, which is the double below the
  double of \<open>3.6\<close> (it prints as \<open>3.5999999999999996\<close>).
\<close>

theorem range_of_three_below:
  "range_y [\<lparr>time = num 0, value = num 0\<rparr>, \<lparr>time = num 1, value = num (- 3)\<rparr>,
            \<lparr>time = num 2, value = num 1\<rparr>] = num 3 * num 1.2
   \<and> range_y [\<lparr>time = num 0, value = num 0\<rparr>, \<lparr>time = num 1, value = num (- 3)\<rparr>,
              \<lparr>time = num 2, value = num 1\<rparr>] \<noteq> num 3.6
   \<and> range_y [\<lparr>time = num 0, value = num 0\<rparr>, \<lparr>time = num 1, value = num (- 3)\<rparr>,
              \<lparr>time = num 2, value = num 1\<rparr>] < num 3.6"
proof -
  let ?a = "[\<lparr>time = num 0, value = num 0\<rparr>, \<lparr>time = num 1, value = num (- 3)\<rparr>,
            \<lparr>time = num 2, value = num 1\<rparr>]"
  have a: "?a \<noteq> []" "map value ?a = map Fin [0, Dbl (- 3), Dbl 1]"
    by (simp_all add: num_representable)
  have "Max (abs ` val ` set [0, Dbl (- 3), Dbl 1]) = 3" by simp
  with range_y_Fin(1) [OF a]
  have "range_y ?a = max2 (Fin (Dbl 3) * num (6 / 5)) (num (1 / 2))" by simp
  also have "Fin (Dbl 3) = num 3" by (simp add: num_representable)
  finally have "range_y ?a = max2 (Fin (Dbl (8106479329266892 * pow2 (- 51)))) (Fin (Dbl (1 / 2)))"
    by (simp only: three_times_12(1)) (simp add: num_representable)
  then have r: "range_y ?a = Fin (Dbl (8106479329266892 * pow2 (- 51)))"
    by (simp only: three_times_12_floor)
  have lt: "Fin (Dbl (8106479329266892 * pow2 (- 51))) < num (18 / 5)"
    by (rule three_times_12_below)
  then have "Fin (Dbl (8106479329266892 * pow2 (- 51))) \<noteq> num (18 / 5)"
    unfolding num_36 by auto
  with lt show ?thesis
    unfolding r by (simp add: three_times_12(1))
qed

text \<open>
  C8 (amended). For a full path (not empty, with finite values) the range of the value
  axis is \<open>max (1.2 * max (|min value|, |max value|), 0.5)\<close> in the arithmetic of the
  program, that is \<open>max (m * 1.2, 0.5)\<close> for the largest absolute value \<open>m\<close> of the
  path. When \<open>m\<close> is \<open>3\<close> the range is the double \<open>3 * 1.2\<close>, which is below \<open>3.6\<close>;
  when \<open>m\<close> is the double \<open>0.1\<close> it is the floor \<open>0.5\<close>. The axis is symmetric:
  \<open>yMin = - yMax\<close>.
\<close>

theorem range_policy:
  assumes "fp \<noteq> []" and "map value fp = map Fin vs"
  shows "range_y fp = rangePolicy vs
    \<and> range_y fp = max2 (num (Max (abs ` val ` set vs)) * num 1.2) (num 0.5)
    \<and> (Max (abs ` val ` set vs) = 3 \<longrightarrow> range_y fp = num 3 * num 1.2 \<and> range_y fp < num 3.6)
    \<and> (num (Max (abs ` val ` set vs)) = num 0.1 \<longrightarrow> range_y fp = num 0.5)
    \<and> yMin fp = - yMax fp"
proof -
  define m where "m = Max (abs ` val ` set vs)"
  from assms have vs: "vs \<noteq> []" by auto
  then have rm: "representable m"
    unfolding m_def by (rule representable_Max_abs)
  have nm: "num m = Fin (Dbl m)"
    using rm by (rule num_representable)
  have r: "range_y fp = max2 (Fin (Dbl m) * num (6 / 5)) (num (1 / 2))"
    unfolding m_def by (rule range_y_Fin(1) [OF assms])
  have p: "rangePolicy vs = max2 (Fin (Dbl m) * num (6 / 5)) (num (1 / 2))"
    unfolding m_def by (rule range_y_Fin(2) [OF assms])
  have three: "range_y fp = num 3 * num (6 / 5) \<and> range_y fp < num (18 / 5)" if "m = 3"
  proof -
    have "Fin (Dbl m) = num 3" using that by (simp add: num_representable)
    with r have "range_y fp = max2 (Fin (Dbl (8106479329266892 * pow2 (- 51)))) (Fin (Dbl (1 / 2)))"
      by (simp only: three_times_12(1)) (simp add: num_representable)
    then have "range_y fp = Fin (Dbl (8106479329266892 * pow2 (- 51)))"
      by (simp only: three_times_12_floor)
    then show ?thesis
      using three_times_12_below by (simp add: three_times_12(1))
  qed
  have tenth: "range_y fp = num (1 / 2)" if "num m = num (1 / 10)"
  proof -
    from that have "Dbl m = Dbl (7205759403792794 * pow2 (- 56))"
      by (simp add: nm num_tenth)
    then have "m = 7205759403792794 * pow2 (- 56)"
      using rm representable_tenth by (simp add: Dbl_inject)
    then have "0 \<le> m" "m \<le> 1 / 4"
      by (simp_all add: pow2_m56)
    with rm show ?thesis
      unfolding r by (rule max2_floor)
  qed
  have same: "range_y fp = rangePolicy vs"
    by (simp only: r p)
  have formula: "range_y fp = max2 (num m * num (6 / 5)) (num (1 / 2))"
    by (simp only: r nm)
  have sym: "yMin fp = - yMax fp"
    by (simp add: yMin_def yMax_def)
  have literals: "(12 / 10 :: real) = 6 / 5" "(5 / 10 :: real) = 1 / 2" "(36 / 10 :: real) = 18 / 5"
    by simp_all
  show ?thesis
    unfolding literals m_def [symmetric]
    using same formula three tenth sym by blast
qed

theorem range_policy_witness:
  "range_y [\<lparr>time = num 0, value = num 0\<rparr>, \<lparr>time = num 1, value = num (- 3)\<rparr>,
            \<lparr>time = num 2, value = num 1\<rparr>]
     = max2 (num 3 * num 1.2) (num 0.5)
   \<and> range_y [\<lparr>time = num 0, value = num 0\<rparr>, \<lparr>time = num 1, value = num 0.1\<rparr>,
              \<lparr>time = num 2, value = num (- (1 / 16))\<rparr>] = num 0.5"
proof -
  let ?a = "[\<lparr>time = num 0, value = num 0\<rparr>, \<lparr>time = num 1, value = num (- 3)\<rparr>,
            \<lparr>time = num 2, value = num 1\<rparr>]"
  let ?b = "[\<lparr>time = num 0, value = num 0\<rparr>, \<lparr>time = num 1, value = num 0.1\<rparr>,
              \<lparr>time = num 2, value = num (- (1 / 16))\<rparr>]"
  let ?t = "Dbl (7205759403792794 * pow2 (- 56))"
  have a: "?a \<noteq> []" "map value ?a = map Fin [0, Dbl (- 3), Dbl 1]"
    by (simp_all add: num_representable)
  have b: "?b \<noteq> []" "map value ?b = map Fin [0, ?t, Dbl (- (1 / 16))]"
    by (simp_all add: num_representable num_tenth)
  have ma: "Max (abs ` val ` set [0, Dbl (- 3), Dbl 1]) = 3" by simp
  have "Max (abs ` val ` set [0, ?t, Dbl (- (1 / 16))]) = val ?t"
    using representable_tenth by (simp add: pow2_m56)
  then have mb: "num (Max (abs ` val ` set [0, ?t, Dbl (- (1 / 16))])) = num 0.1"
    by (simp add: num_tenth)
  from range_policy [OF a] have "range_y ?a = max2 (num (Max (abs ` val ` set [0, Dbl (- 3), Dbl 1])) * num 1.2) (num 0.5)"
    by blast
  then have "range_y ?a = max2 (num 3 * num 1.2) (num 0.5)"
    by (simp only: ma)
  moreover from range_policy [OF b] mb have "range_y ?b = num 0.5"
    by blast
  ultimately show ?thesis by blast
qed

end
